theory Spec2Isabelle
  imports Complex_Main
begin

section \<open>Metric value storage backends (prometheus\_client/values.py)\<close>

text \<open>
  The module offers two backends for the current value of one metric time series:
  \<^item> \<open>MutexValue\<close>, a float guarded by a lock owned by the instance;
  \<^item> \<open>MmapedValue\<close>, the class built by \<open>MultiProcessValue\<close>, whose instances cache a
    float that is written through to a per-process backing file, and which share the
    closure variables \<open>files\<close>, \<open>values\<close>, \<open>pid\<close> and \<open>lock\<close>.

  Python floats are modelled as reals: rounding is outside this development. An
  exception is a value: every operation returns the state it leaves behind together
  with either the error raised or its result.
\<close>

type_synonym pyfloat = real

datatype error =
    TypeError     \<comment> \<open>\<open>os.path.join(None, ...)\<close>\<close>
  | IOError       \<comment> \<open>the backing store cannot be opened, read or written\<close>
  | NoSuchObject  \<comment> \<open>a reference that denotes no constructed instance (not a Python behaviour:
                      a caller can only hold references to constructed instances)\<close>

subsection \<open>Library functions used by the module\<close>

text \<open>\<open>str\<close> of a Python int, as \<open>'{}'.format\<close> prints it.\<close>

definition digit_char :: "nat \<Rightarrow> char" where
  "digit_char d = ''0123456789'' ! d"

fun str_nat :: "nat \<Rightarrow> string" where
  "str_nat n = (if n < 10 then [digit_char n] else str_nat (n div 10) @ [digit_char (n mod 10)])"

declare str_nat.simps [simp del]

definition str_int :: "int \<Rightarrow> string" where
  "str_int i = (if i < 0 then ''-'' @ str_nat (nat (- i)) else str_nat (nat i))"

text \<open>\<open>'{}'.format(x)\<close> for \<open>x\<close> a string or \<open>None\<close>.\<close>

definition format_str :: "string option \<Rightarrow> string" where
  "format_str x = (case x of None \<Rightarrow> ''None'' | Some s \<Rightarrow> s)"

text \<open>\<open>os.path.join\<close> with two arguments, on POSIX.\<close>

definition os_path_join :: "string \<Rightarrow> string \<Rightarrow> string" where
  "os_path_join a b =
     (if b \<noteq> [] \<and> hd b = CHR ''/'' then b
      else if a = [] \<or> last a = CHR ''/'' then a @ b
      else a @ ''/'' @ b)"

subsection \<open>State\<close>

text \<open>
  An open backing store is an object; \<open>files\<close> and the \<open>_file\<close> attribute of the instances
  hold references to it, so the objects live in a heap (a list, a reference being an
  index) and closing one is seen through every reference.
\<close>

record MmapedDict =
  filename :: string
  closed :: bool

text \<open>The tuple \<open>self._params\<close>.\<close>

record params =
  metric_typ :: "string option"
  metric_name :: string
  name :: string
  labelnames :: "string list"
  labelvalues :: "string list"
  multiprocess_mode :: string

text \<open>The attributes of one \<open>MmapedValue\<close> instance.\<close>

record MmapedValue =
  v_params :: params
  v_file :: nat
  v_key :: string
  v_value :: pyfloat

text \<open>
  The process (environment, warnings emitted, the contents of the files of the
  directory, the store objects) and the closure variables of \<open>MultiProcessValue\<close>.
  \<open>files\<close> is a dict, kept in insertion order; \<open>all_values\<close> is the list \<open>values\<close>, and
  the reference to an instance is its position there: an instance is appended when
  its construction succeeds and never removed. \<open>broken\<close> is the set of paths on which
  store input/output fails.
\<close>

record state =
  environ :: "string \<rightharpoonup> string"
  warnings :: nat
  disk :: "string \<Rightarrow> (string \<rightharpoonup> pyfloat)"
  broken :: "string set"
  heap :: "MmapedDict list"
  files :: "(string option \<times> nat) list"
  all_values :: "MmapedValue list"
  pid :: int

type_synonym 'a result = "(error + 'a) \<times> state"

subsection \<open>The backing store\<close>

text \<open>
  Modelled from the spec: \<open>MmapedDict\<close> of \<open>mmap_dict.py\<close>, which is not among
  the sources. The spec gives its contract: \<open>open(path) -> store\<close>;
  \<open>store.read(key) -> float\<close>, \<open>0.0\<close> if the key is unseen; \<open>store.write(key, value)\<close>;
  \<open>store.close()\<close>; an input/output failure is raised to the caller.
\<close>

definition MmapedDict_open :: "string \<Rightarrow> state \<Rightarrow> nat result" where
  "MmapedDict_open path w =
     (if path \<in> broken w then (Inl IOError, w)
      else (Inr (length (heap w)),
            w\<lparr>heap := heap w @ [\<lparr>filename = path, closed = False\<rparr>]\<rparr>))"

definition read_value :: "nat \<Rightarrow> string \<Rightarrow> state \<Rightarrow> error + pyfloat" where
  "read_value h k w =
     (if h < length (heap w) then
        (let f = heap w ! h in
         if closed f \<or> filename f \<in> broken w then Inl IOError
         else (case disk w (filename f) k of None \<Rightarrow> Inr 0 | Some x \<Rightarrow> Inr x))
      else Inl NoSuchObject)"

definition write_value :: "nat \<Rightarrow> string \<Rightarrow> pyfloat \<Rightarrow> state \<Rightarrow> unit result" where
  "write_value h k x w =
     (if h < length (heap w) then
        (let f = heap w ! h in
         if closed f \<or> filename f \<in> broken w then (Inl IOError, w)
         else (Inr (), w\<lparr>disk := (disk w)(filename f := (disk w (filename f))(k \<mapsto> x))\<rparr>))
      else (Inl NoSuchObject, w))"

definition close :: "nat \<Rightarrow> MmapedDict list \<Rightarrow> MmapedDict list" where
  "close h hp = (if h < length hp then hp[h := (hp ! h)\<lparr>closed := True\<rparr>] else hp)"

subsection \<open>\<open>MmapedValue\<close>\<close>

text \<open>
  \<open>mmap_key\<close> is imported from \<open>mmap_dict.py\<close>, which is not among the sources; it is a
  parameter \<open>mk\<close> of every function that calls it. \<open>process_identifier()\<close> is called once
  in each operation; its result there is the parameter \<open>actual_pid\<close>.
\<close>

type_synonym mmap_key = "string \<Rightarrow> string \<Rightarrow> string list \<Rightarrow> string list \<Rightarrow> string"

definition file_prefix_of :: "params \<Rightarrow> string option" where
  "file_prefix_of p =
     (case metric_typ p of
        None \<Rightarrow> None
      | Some t \<Rightarrow> if t = ''gauge'' then Some (t @ ''_'' @ multiprocess_mode p) else Some t)"

definition db_name :: "string option \<Rightarrow> int \<Rightarrow> string" where
  "db_name file_prefix i = format_str file_prefix @ ''_'' @ str_int i @ ''.db''"

text \<open>The first half of \<open>__reset\<close>: the store of the prefix, opened if \<open>files\<close> has none.\<close>

definition store_for :: "string option \<Rightarrow> state \<Rightarrow> nat result" where
  "store_for file_prefix w =
     (case map_of (files w) file_prefix of
        Some h \<Rightarrow> (Inr h, w)
      | None \<Rightarrow>
          (case environ w ''PROMETHEUS_MULTIPROC_DIR'' of
             None \<Rightarrow> (Inl TypeError, w)
           | Some d \<Rightarrow>
               (case MmapedDict_open (os_path_join d (db_name file_prefix (pid w))) w of
                  (Inl e, w') \<Rightarrow> (Inl e, w')
                | (Inr h, w') \<Rightarrow> (Inr h, w'\<lparr>files := files w' @ [(file_prefix, h)]\<rparr>))))"

text \<open>
  \<open>__reset\<close>: the instance is returned as the method leaves it, also when it raises
  (then \<open>_file\<close> may be set and \<open>_value\<close> not).
\<close>

definition reset :: "mmap_key \<Rightarrow> MmapedValue \<Rightarrow> state \<Rightarrow> (error + unit) \<times> MmapedValue \<times> state" where
  "reset mk self w =
     (let p = v_params self in
      case store_for (file_prefix_of p) w of
        (Inl e, w') \<Rightarrow> (Inl e, self, w')
      | (Inr h, w') \<Rightarrow>
          (let self' = self\<lparr>v_file := h,
                            v_key := mk (metric_name p) (name p) (labelnames p) (labelvalues p)\<rparr>
           in case read_value (v_file self') (v_key self') w' of
                Inl e \<Rightarrow> (Inl e, self', w')
              | Inr x \<Rightarrow> (Inr (), self'\<lparr>v_value := x\<rparr>, w')))"

text \<open>\<open>for value in values: value.__reset()\<close>, which stops at the first exception.\<close>

fun reset_each :: "mmap_key \<Rightarrow> MmapedValue list \<Rightarrow> state \<Rightarrow> (error + unit) \<times> MmapedValue list \<times> state" where
  "reset_each mk [] w = (Inr (), [], w)"
| "reset_each mk (v # vs) w =
     (case reset mk v w of
        (Inl e, v', w') \<Rightarrow> (Inl e, v' # vs, w')
      | (Inr _, v', w') \<Rightarrow>
          (case reset_each mk vs w' of (r, vs', w'') \<Rightarrow> (r, v' # vs', w'')))"

definition check_for_pid_change :: "mmap_key \<Rightarrow> int \<Rightarrow> state \<Rightarrow> unit result" where
  "check_for_pid_change mk actual_pid w =
     (if pid w \<noteq> actual_pid then
        (let w1 = w\<lparr>pid := actual_pid\<rparr>;
             w2 = w1\<lparr>heap := fold close (map snd (files w1)) (heap w1)\<rparr>;
             w3 = w2\<lparr>files := []\<rparr>
         in case reset_each mk (all_values w3) w3 of
              (r, vs, w4) \<Rightarrow> (r, w4\<lparr>all_values := vs\<rparr>))
      else (Inr (), w))"

text \<open>
  \<open>__init__\<close>. The new object has only \<open>_params\<close> when \<open>__reset\<close> starts; the other
  attributes of \<open>blank\<close> are placeholders that a successful \<open>__reset\<close> overwrites, and
  the object of a failed construction is dropped. The result is the reference to the
  new instance.
\<close>

definition blank :: "params \<Rightarrow> MmapedValue" where
  "blank p = \<lparr>v_params = p, v_file = 0, v_key = [], v_value = 0\<rparr>"

definition copy_legacy_dir :: "state \<Rightarrow> state" where
  "copy_legacy_dir w =
     (case environ w ''prometheus_multiproc_dir'' of
        None \<Rightarrow> w
      | Some d \<Rightarrow>
          (case environ w ''PROMETHEUS_MULTIPROC_DIR'' of
             Some _ \<Rightarrow> w
           | None \<Rightarrow> w\<lparr>environ := (environ w)(''PROMETHEUS_MULTIPROC_DIR'' \<mapsto> d),
                       warnings := warnings w + 1\<rparr>))"

definition init :: "mmap_key \<Rightarrow> int \<Rightarrow> params \<Rightarrow> state \<Rightarrow> nat result" where
  "init mk actual_pid p w =
     (case check_for_pid_change mk actual_pid (copy_legacy_dir w) of
        (Inl e, w1) \<Rightarrow> (Inl e, w1)
      | (Inr _, w1) \<Rightarrow>
          (case reset mk (blank p) w1 of
             (Inl e, _, w2) \<Rightarrow> (Inl e, w2)
           | (Inr _, self, w2) \<Rightarrow>
               (Inr (length (all_values w2)), w2\<lparr>all_values := all_values w2 @ [self]\<rparr>)))"

text \<open>
  \<open>inc\<close>, \<open>set\<close> and \<open>get\<close> of the instance \<open>self\<close> (a position in \<open>values\<close>). The body runs
  under the shared lock, so as one step.
\<close>

definition inc :: "mmap_key \<Rightarrow> int \<Rightarrow> nat \<Rightarrow> pyfloat \<Rightarrow> state \<Rightarrow> unit result" where
  "inc mk actual_pid self amount w =
     (if self < length (all_values w) then
        (case check_for_pid_change mk actual_pid w of
           (Inl e, w1) \<Rightarrow> (Inl e, w1)
         | (Inr _, w1) \<Rightarrow>
             (let v = (all_values w1 ! self)\<lparr>v_value := v_value (all_values w1 ! self) + amount\<rparr>;
                  w2 = w1\<lparr>all_values := (all_values w1)[self := v]\<rparr>
              in write_value (v_file v) (v_key v) (v_value v) w2))
      else (Inl NoSuchObject, w))"

definition set_value :: "mmap_key \<Rightarrow> int \<Rightarrow> nat \<Rightarrow> pyfloat \<Rightarrow> state \<Rightarrow> unit result" where
  "set_value mk actual_pid self x w =
     (if self < length (all_values w) then
        (case check_for_pid_change mk actual_pid w of
           (Inl e, w1) \<Rightarrow> (Inl e, w1)
         | (Inr _, w1) \<Rightarrow>
             (let v = (all_values w1 ! self)\<lparr>v_value := x\<rparr>;
                  w2 = w1\<lparr>all_values := (all_values w1)[self := v]\<rparr>
              in write_value (v_file v) (v_key v) (v_value v) w2))
      else (Inl NoSuchObject, w))"

definition get :: "mmap_key \<Rightarrow> int \<Rightarrow> nat \<Rightarrow> state \<Rightarrow> pyfloat result" where
  "get mk actual_pid self w =
     (if self < length (all_values w) then
        (case check_for_pid_change mk actual_pid w of
           (Inl e, w1) \<Rightarrow> (Inl e, w1)
         | (Inr _, w1) \<Rightarrow> (Inr (v_value (all_values w1 ! self)), w1))
      else (Inl NoSuchObject, w))"

definition set_exemplar :: "nat \<Rightarrow> 'e \<Rightarrow> state \<Rightarrow> unit result" where
  "set_exemplar self exemplar w = (Inr (), w)"

definition get_exemplar :: "nat \<Rightarrow> state \<Rightarrow> ('e option) result" where
  "get_exemplar self w = (Inr None, w)"

subsection \<open>\<open>MultiProcessValue\<close> and \<open>get_value_class\<close>\<close>

text \<open>
  \<open>MultiProcessValue\<close> creates the closure variables; the process part of the state
  (environment, warnings, disk, store objects) is that of its argument.
\<close>

definition MultiProcessValue :: "int \<Rightarrow> state \<Rightarrow> state" where
  "MultiProcessValue actual_pid w = w\<lparr>files := [], all_values := [], pid := actual_pid\<rparr>"

datatype value_class = MutexValue_class | MmapedValue_class state

definition get_value_class :: "int \<Rightarrow> state \<Rightarrow> value_class" where
  "get_value_class actual_pid w =
     (if environ w ''prometheus_multiproc_dir'' \<noteq> None \<or> environ w ''PROMETHEUS_MULTIPROC_DIR'' \<noteq> None
      then MmapedValue_class (MultiProcessValue actual_pid w)
      else MutexValue_class)"

subsection \<open>Histories of the shared backend\<close>

datatype op = New params | Inc nat pyfloat | Set nat pyfloat | Get nat

definition outcome :: "'a result \<Rightarrow> error option \<times> state" where
  "outcome r = (case r of (Inl e, w) \<Rightarrow> (Some e, w) | (Inr _, w) \<Rightarrow> (None, w))"

text \<open>One call, with the value the identity probe has during it.\<close>

fun exec :: "mmap_key \<Rightarrow> int \<times> op \<Rightarrow> state \<Rightarrow> error option \<times> state" where
  "exec mk (a, New p) w = outcome (init mk a p w)"
| "exec mk (a, Inc self x) w = outcome (inc mk a self x w)"
| "exec mk (a, Set self x) w = outcome (set_value mk a self x w)"
| "exec mk (a, Get self) w = outcome (get mk a self w)"

text \<open>A caller that catches every exception and goes on.\<close>

fun run :: "mmap_key \<Rightarrow> (int \<times> op) list \<Rightarrow> state \<Rightarrow> state" where
  "run mk [] w = w"
| "run mk (c # cs) w = run mk cs (snd (exec mk c w))"

text \<open>The states that calls which all return lead to, from a new factory.\<close>

inductive reachable :: "mmap_key \<Rightarrow> state \<Rightarrow> bool" for mk :: mmap_key where
  start: "reachable mk (MultiProcessValue a w)"
| step: "reachable mk w \<Longrightarrow> exec mk c w = (None, w') \<Longrightarrow> reachable mk w'"

subsection \<open>\<open>MutexValue\<close>\<close>

record 'e MutexValue =
  m_value :: pyfloat
  m_exemplar :: "'e option"

definition MutexValue_init :: "'e MutexValue" where
  "MutexValue_init = \<lparr>m_value = 0, m_exemplar = None\<rparr>"

definition m_inc :: "pyfloat \<Rightarrow> 'e MutexValue \<Rightarrow> 'e MutexValue" where
  "m_inc amount self = self\<lparr>m_value := m_value self + amount\<rparr>"

definition m_set :: "pyfloat \<Rightarrow> 'e MutexValue \<Rightarrow> 'e MutexValue" where
  "m_set x self = self\<lparr>m_value := x\<rparr>"

definition m_set_exemplar :: "'e \<Rightarrow> 'e MutexValue \<Rightarrow> 'e MutexValue" where
  "m_set_exemplar exemplar self = self\<lparr>m_exemplar := Some exemplar\<rparr>"

definition m_get :: "'e MutexValue \<Rightarrow> pyfloat" where
  "m_get self = m_value self"

definition m_get_exemplar :: "'e MutexValue \<Rightarrow> 'e option" where
  "m_get_exemplar self = m_exemplar self"

subsection \<open>Consistency of the shared state\<close>

definition store_ok :: "state \<Rightarrow> string option \<Rightarrow> nat \<Rightarrow> bool" where
  "store_ok w file_prefix h \<longleftrightarrow>
     h < length (heap w) \<and> \<not> closed (heap w ! h) \<and>
     (case environ w ''PROMETHEUS_MULTIPROC_DIR'' of
        None \<Rightarrow> False
      | Some d \<Rightarrow> filename (heap w ! h) = os_path_join d (db_name file_prefix (pid w)))"

definition files_ok :: "state \<Rightarrow> bool" where
  "files_ok w \<longleftrightarrow>
     distinct (map fst (files w)) \<and> (\<forall>x \<in> set (files w). store_ok w (fst x) (snd x))"

definition attached :: "mmap_key \<Rightarrow> state \<Rightarrow> MmapedValue \<Rightarrow> bool" where
  "attached mk w v \<longleftrightarrow>
     map_of (files w) (file_prefix_of (v_params v)) = Some (v_file v) \<and>
     v_key v = mk (metric_name (v_params v)) (name (v_params v))
                  (labelnames (v_params v)) (labelvalues (v_params v))"

definition consistent :: "mmap_key \<Rightarrow> state \<Rightarrow> bool" where
  "consistent mk w \<longleftrightarrow> files_ok w \<and> (\<forall>v \<in> set (all_values w). attached mk w v)"

definition grows :: "state \<Rightarrow> state \<Rightarrow> bool" where
  "grows w w' \<longleftrightarrow>
     environ w' = environ w \<and> warnings w' = warnings w \<and> disk w' = disk w \<and>
     broken w' = broken w \<and> pid w' = pid w \<and> all_values w' = all_values w \<and>
     take (length (heap w)) (heap w') = heap w \<and> length (heap w) \<le> length (heap w') \<and>
     take (length (files w)) (files w') = files w \<and> length (files w) \<le> length (files w')"

definition reattached :: "mmap_key \<Rightarrow> state \<Rightarrow> MmapedValue \<Rightarrow> MmapedValue \<Rightarrow> bool" where
  "reattached mk w v v' \<longleftrightarrow>
     v_params v' = v_params v \<and> attached mk w v' \<and>
     read_value (v_file v') (v_key v') w = Inr (v_value v')"

definition fresh_from :: "nat \<Rightarrow> state \<Rightarrow> bool" where
  "fresh_from n w \<longleftrightarrow> (\<forall>x \<in> set (files w). n \<le> snd x)"

definition closing :: "state \<Rightarrow> state" where
  "closing w = w\<lparr>heap := fold close (map snd (files w)) (heap w), files := []\<rparr>"

text \<open>What \<open>inc\<close> and \<open>set\<close> do once the identity check has returned.\<close>

definition store_back :: "nat \<Rightarrow> pyfloat \<Rightarrow> state \<Rightarrow> unit result" where
  "store_back self x w =
     (let v = (all_values w ! self)\<lparr>v_value := x\<rparr>
      in write_value (v_file v) (v_key v) (v_value v) (w\<lparr>all_values := (all_values w)[self := v]\<rparr>))"

subsection \<open>Concrete inputs\<close>

text \<open>
  Inputs for the concrete scenarios: a key function (the module's own, \<open>mmap_key\<close>, is
  not among the sources), a process whose environment names the directory
  \<open>/tmp/metrics\<close> under the current spelling, under the legacy spelling, or not at
  all, and the parameters of a counter and of gauges.
\<close>

definition example_key :: mmap_key where
  "example_key m n ls vs = m @ '':'' @ n @ '':'' @ concat ls @ '':'' @ concat vs"

definition process_with :: "(string \<rightharpoonup> string) \<Rightarrow> state" where
  "process_with e =
     \<lparr>environ = e, warnings = 0, disk = (\<lambda>_. Map.empty), broken = {}, heap = [],
      files = [], all_values = [], pid = 0\<rparr>"

definition current_env :: "string \<rightharpoonup> string" where
  "current_env = [''PROMETHEUS_MULTIPROC_DIR'' \<mapsto> ''/tmp/metrics'']"

definition legacy_env :: "string \<rightharpoonup> string" where
  "legacy_env = [''prometheus_multiproc_dir'' \<mapsto> ''/tmp/metrics'']"

definition counter_params :: params where
  "counter_params =
     \<lparr>metric_typ = Some ''counter'', metric_name = ''requests_total'', name = ''requests_total'',
      labelnames = [], labelvalues = [], multiprocess_mode = []\<rparr>"

definition gauge_params :: "string \<Rightarrow> params" where
  "gauge_params mode =
     \<lparr>metric_typ = Some ''gauge'', metric_name = ''in_progress'', name = ''in_progress'',
      labelnames = [], labelvalues = [], multiprocess_mode = mode\<rparr>"

text \<open>
  A new factory in a process with identity 100, the state after one counter has been
  constructed there, after a second one with the same parameters, after
  \<open>inc(5)\<close> on the first of the two, and the two counters when the backing file can
  no longer be written.
\<close>

definition started :: state where
  "started = MultiProcessValue 100 (process_with current_env)"

definition one_counter :: state where
  "one_counter = snd (init example_key 100 counter_params started)"

definition two_counters :: state where
  "two_counters = snd (init example_key 100 counter_params one_counter)"

definition after_inc :: state where
  "after_inc = snd (inc example_key 100 0 5 two_counters)"

definition broken_counters :: state where
  "broken_counters = two_counters\<lparr>broken := {''/tmp/metrics/counter_100.db''}\<rparr>"

definition three_incs :: state where
  "three_incs =
     snd (inc example_key 100 0 1 (snd (inc example_key 100 0 1 (snd (inc example_key 100 0 1 one_counter)))))"

text \<open>Two gauges that differ in the aggregation mode only, constructed one after the other.\<close>

definition one_gauge :: state where
  "one_gauge = snd (init example_key 100 (gauge_params ''min'') started)"

definition two_gauges :: state where
  "two_gauges = snd (init example_key 100 (gauge_params ''max'') one_gauge)"

text \<open>The state after the identity check finds the probe 200 in \<open>after_inc\<close>.\<close>

definition forked :: state where
  "forked = snd (check_for_pid_change example_key 200 after_inc)"

text \<open>
  A new factory in a process that has the directory under the legacy name only, and
  the calls that construct an instance.
\<close>

definition legacy_started :: state where
  "legacy_started = MultiProcessValue 100 (process_with legacy_env)"

definition constructs :: "(int \<times> op) \<Rightarrow> bool" where
  "constructs c = (case snd c of New _ \<Rightarrow> True | _ \<Rightarrow> False)"

subsection \<open>Threads calling \<open>MutexValue.inc\<close>\<close>

text \<open>
  \<open>inc\<close> is \<open>with self._lock: self._value += amount\<close>. A thread that runs it acquires
  the lock (it waits while the lock is held), computes \<open>self._value + amount\<close>, stores
  the result in \<open>self._value\<close> and releases the lock; another thread may run between
  any two of these steps. A thread is where it stands in the current call and the
  amounts it has still to add, the first being that of the current call.
\<close>

datatype pc = Idle | Entered | Computed pyfloat | Written

type_synonym thread = "pc \<times> pyfloat list"

fun thread_step :: "thread \<Rightarrow> 'e MutexValue \<Rightarrow> bool \<Rightarrow> (thread \<times> 'e MutexValue \<times> bool) option" where
  "thread_step (Idle, a # as) self lock = (if lock then None else Some ((Entered, a # as), self, True))"
| "thread_step (Entered, a # as) self lock = Some ((Computed (m_value self + a), a # as), self, lock)"
| "thread_step (Computed x, a # as) self lock = Some ((Written, a # as), self\<lparr>m_value := x\<rparr>, lock)"
| "thread_step (Written, a # as) self lock = Some ((Idle, as), self, False)"
| "thread_step (_, []) self lock = None"

text \<open>The instance, its lock and the threads; \<open>fire t\<close> is one step of thread \<open>t\<close>, if it can take one.\<close>

record 'e shared =
  target :: "'e MutexValue"
  locked :: bool
  threads :: "thread list"

definition fire :: "nat \<Rightarrow> 'e shared \<Rightarrow> 'e shared option" where
  "fire t s =
     (if t < length (threads s) then
        (case thread_step (threads s ! t) (target s) (locked s) of
           None \<Rightarrow> None
         | Some (th, self, lock) \<Rightarrow>
             Some \<lparr>target = self, locked = lock, threads = (threads s)[t := th]\<rparr>)
      else None)"

text \<open>A schedule names the thread that takes each step.\<close>

fun sched :: "nat list \<Rightarrow> 'e shared \<Rightarrow> 'e shared option" where
  "sched [] s = Some s"
| "sched (t # ts) s = (case fire t s of None \<Rightarrow> None | Some s' \<Rightarrow> sched ts s')"

text \<open>
  Thread \<open>i\<close> is to call \<open>inc\<close> with the amounts \<open>programs ! i\<close>, in this order, on a new
  instance; the threads have finished when none has a call left.
\<close>

definition spawn :: "pyfloat list list \<Rightarrow> 'e shared" where
  "spawn programs = \<lparr>target = MutexValue_init, locked = False, threads = map (Pair Idle) programs\<rparr>"

definition finished :: "'e shared \<Rightarrow> bool" where
  "finished s \<longleftrightarrow> (\<forall>th \<in> set (threads s). th = (Idle, []))"

text \<open>
  What the proof keeps track of: the amounts a thread has not yet added, the steps it
  has still to take, and that at most one thread is inside a call, the one that
  holds the lock.
\<close>

fun remaining :: "thread \<Rightarrow> pyfloat" where
  "remaining (Written, as) = sum_list (tl as)"
| "remaining (_, as) = sum_list as"

fun thread_ok :: "'e MutexValue \<Rightarrow> thread \<Rightarrow> bool" where
  "thread_ok self (Idle, as) = True"
| "thread_ok self (Computed x, as) = (as \<noteq> [] \<and> x = m_value self + hd as)"
| "thread_ok self (_, as) = (as \<noteq> [])"

definition busy :: "thread \<Rightarrow> bool" where
  "busy th = (fst th \<noteq> Idle)"

fun work :: "thread \<Rightarrow> nat" where
  "work (Idle, as) = 4 * length as"
| "work (Entered, as) = 4 * length (tl as) + 3"
| "work (Computed x, as) = 4 * length (tl as) + 2"
| "work (Written, as) = 4 * length (tl as) + 1"

definition exclusive :: "'e shared \<Rightarrow> pyfloat \<Rightarrow> bool" where
  "exclusive s goal \<longleftrightarrow>
     (\<forall>th \<in> set (threads s). thread_ok (target s) th) \<and>
     (locked s \<longleftrightarrow> (\<exists>th \<in> set (threads s). busy th)) \<and>
     (\<forall>t < length (threads s). \<forall>t' < length (threads s).
        busy (threads s ! t) \<and> busy (threads s ! t') \<longrightarrow> t = t') \<and>
     m_value (target s) + sum_list (map remaining (threads s)) = goal"

section \<open>Properties\<close>

subsection \<open>Attaching and re-attaching\<close>

lemma grows_refl: "grows w w"
  by (simp add: grows_def)

lemma grows_trans: "grows w w' \<Longrightarrow> grows w' w'' \<Longrightarrow> grows w w''"
proof -
  assume a: "grows w w'" and b: "grows w' w''"
  have t: "\<And>(xs::'a list) ys zs. take (length xs) ys = xs \<Longrightarrow> length xs \<le> length ys \<Longrightarrow>
        take (length ys) zs = ys \<Longrightarrow> take (length xs) zs = xs"
  proof -
    fix xs ys zs :: "'a list"
    assume 1: "take (length xs) ys = xs" and 2: "length xs \<le> length ys" and 3: "take (length ys) zs = ys"
    have "take (length xs) (take (length ys) zs) = take (length xs) zs"
      using 2 by (simp add: min_def)
    then show "take (length xs) zs = xs" using 1 3 by simp
  qed
  show ?thesis
    using a b t [of "heap w" "heap w'" "heap w''"] t [of "files w" "files w'" "files w''"]
    by (simp add: grows_def)
qed

lemma grows_heap_nth: "grows w w' \<Longrightarrow> h < length (heap w) \<Longrightarrow> heap w' ! h = heap w ! h"
  unfolding grows_def by (metis nth_take)

lemma grows_map_of:
  assumes "grows w w'" "map_of (files w) k = Some h"
  shows "map_of (files w') k = Some h"
proof -
  have "files w' = files w @ drop (length (files w)) (files w')"
    using assms(1) unfolding grows_def by (metis append_take_drop_id)
  then have "map_of (files w') k = (map_of (drop (length (files w)) (files w')) ++ map_of (files w)) k"
    by (metis map_of_append)
  then show ?thesis using assms(2) by (simp add: map_add_Some_iff)
qed

lemma store_for_grows: "store_for file_prefix w = (r, w') \<Longrightarrow> grows w w'"
  by (auto simp: store_for_def MmapedDict_open_def grows_def split: option.splits if_splits)

lemma grows_store_ok: "grows w w' \<Longrightarrow> store_ok w k h \<Longrightarrow> store_ok w' k h"
  unfolding store_ok_def using grows_heap_nth [of w w' h]
  by (auto simp: grows_def split: option.splits)

lemma store_for_ok:
  assumes "files_ok w" "store_for file_prefix w = (Inr h, w')"
  shows "files_ok w' \<and> map_of (files w') file_prefix = Some h"
proof (cases "map_of (files w) file_prefix")
  case (Some h')
  then show ?thesis using assms by (simp add: store_for_def)
next
  case None
  from assms(2) have g: "grows w w'" by (rule store_for_grows)
  from None assms(2) obtain d where d: "environ w ''PROMETHEUS_MULTIPROC_DIR'' = Some d"
    by (auto simp: store_for_def split: option.splits)
  let ?path = "os_path_join d (db_name file_prefix (pid w))"
  from None d assms(2) have h: "h = length (heap w)"
    and hp: "heap w' = heap w @ [\<lparr>filename = ?path, closed = False\<rparr>]"
    and fs: "files w' = files w @ [(file_prefix, h)]"
    by (auto simp: store_for_def MmapedDict_open_def split: if_splits)
  have new: "store_ok w' file_prefix h"
    using g d h hp by (simp add: store_ok_def grows_def)
  have old: "\<forall>x \<in> set (files w). store_ok w' (fst x) (snd x)"
    using assms(1) g by (auto simp: files_ok_def intro: grows_store_ok)
  have "file_prefix \<notin> fst ` set (files w)"
    using None by (simp add: map_of_eq_None_iff)
  then have dist: "distinct (map fst (files w'))"
    using assms(1) fs by (simp add: files_ok_def)
  have "map_of (files w') file_prefix = Some h"
    using None fs by (simp add: map_add_Some_iff)
  then show ?thesis using new old dist fs by (simp add: files_ok_def)
qed

lemma grows_attached: "grows w w' \<Longrightarrow> attached mk w v \<Longrightarrow> attached mk w' v"
  by (simp add: attached_def grows_map_of)

lemma grows_read_value: "grows w w' \<Longrightarrow> read_value h k w = Inr x \<Longrightarrow> read_value h k w' = Inr x"
proof -
  assume g: "grows w w'" and r: "read_value h k w = Inr x"
  from r have h: "h < length (heap w)"
    by (simp add: read_value_def split: if_splits)
  then have "heap w' ! h = heap w ! h" and "h < length (heap w')"
    using g grows_heap_nth [of w w' h] by (simp_all add: grows_def)
  then show ?thesis using r g h by (auto simp: read_value_def grows_def Let_def)
qed

lemma reset_grows: "reset mk v w = (r, v', w') \<Longrightarrow> grows w w'"
  by (auto simp: reset_def Let_def split: prod.splits sum.splits dest: store_for_grows)

lemma reset_params: "reset mk v w = (r, v', w') \<Longrightarrow> v_params v' = v_params v"
  by (auto simp: reset_def Let_def split: prod.splits sum.splits)

lemma grows_reattached: "grows w w' \<Longrightarrow> reattached mk w v v' \<Longrightarrow> reattached mk w' v v'"
  by (simp add: reattached_def grows_attached grows_read_value)

lemma reset_ok:
  assumes "files_ok w" "reset mk v w = (Inr u, v', w')"
  shows "files_ok w' \<and> reattached mk w' v v'"
proof -
  from assms(2) obtain h where s: "store_for (file_prefix_of (v_params v)) w = (Inr h, w')"
    by (auto simp: reset_def Let_def split: prod.splits sum.splits)
  from store_for_ok [OF assms(1) s]
  have ok: "files_ok w'" and m: "map_of (files w') (file_prefix_of (v_params v)) = Some h"
    by simp_all
  from assms(2) s have "v_file v' = h"
    and "v_key v' = mk (metric_name (v_params v)) (name (v_params v))
                       (labelnames (v_params v)) (labelvalues (v_params v))"
    and "read_value (v_file v') (v_key v') w' = Inr (v_value v')"
    and "v_params v' = v_params v"
    by (auto simp: reset_def Let_def split: sum.splits)
  then show ?thesis using ok m by (simp add: reattached_def attached_def)
qed

lemma reset_each_grows: "reset_each mk vs w = (r, vs', w') \<Longrightarrow> grows w w' \<and> length vs' = length vs"
proof (induction vs arbitrary: w r vs' w')
  case Nil
  then show ?case by (simp add: grows_refl)
next
  case (Cons v vs)
  obtain r1 v1 w1 where a: "reset mk v w = (r1, v1, w1)" by (metis prod_cases3)
  have g1: "grows w w1" using a by (rule reset_grows)
  show ?case
  proof (cases r1)
    case (Inl e)
    then show ?thesis using Cons.prems a g1 by auto
  next
    case (Inr u)
    obtain r2 vs2 w2 where b: "reset_each mk vs w1 = (r2, vs2, w2)" by (metis prod_cases3)
    from Cons.IH [OF b] have "grows w1 w2" "length vs2 = length vs" by simp_all
    then show ?thesis using Cons.prems a b Inr g1 by (auto intro: grows_trans)
  qed
qed

lemma reset_each_ok:
  assumes "files_ok w" "reset_each mk vs w = (Inr u, vs', w')"
  shows "files_ok w' \<and> list_all2 (reattached mk w') vs vs'"
  using assms
proof (induction vs arbitrary: w vs' w')
  case Nil
  then show ?case by simp
next
  case (Cons v vs)
  obtain r1 v1 w1 where a: "reset mk v w = (r1, v1, w1)" by (metis prod_cases3)
  obtain r2 vs2 w2 where b: "reset_each mk vs w1 = (r2, vs2, w2)" by (metis prod_cases3)
  from Cons.prems(2) a b obtain u1 where r1: "r1 = Inr u1" and r2: "r2 = Inr u"
    and vs': "vs' = v1 # vs2" and w': "w' = w2"
    by (cases r1) auto
  from reset_ok [OF Cons.prems(1) a [unfolded r1]]
  have ok1: "files_ok w1" and re1: "reattached mk w1 v v1" by simp_all
  from Cons.IH [OF ok1 b [unfolded r2]]
  have ok2: "files_ok w2" and re2: "list_all2 (reattached mk w2) vs vs2" by simp_all
  have "grows w1 w2" using reset_each_grows [OF b] by simp
  then have "reattached mk w2 v v1" using re1 by (rule grows_reattached)
  then show ?case using ok2 re2 vs' w' by simp
qed

lemma length_fold_close: "length (fold close hs hp) = length hp"
  by (induction hs arbitrary: hp) (simp_all add: close_def)

lemma closed_fold_close_mono: "i < length hp \<Longrightarrow> closed (hp ! i) \<Longrightarrow> closed (fold close hs hp ! i)"
proof (induction hs arbitrary: hp)
  case Nil
  then show ?case by simp
next
  case (Cons h hs)
  have "closed (close h hp ! i)"
    using Cons.prems by (simp add: close_def nth_list_update)
  moreover have "i < length (close h hp)"
    using Cons.prems by (simp add: close_def)
  ultimately show ?case using Cons.IH [of "close h hp"] by simp
qed

lemma closed_fold_close: "h \<in> set hs \<Longrightarrow> h < length hp \<Longrightarrow> closed (fold close hs hp ! h)"
proof (induction hs arbitrary: hp)
  case Nil
  then show ?case by simp
next
  case (Cons g hs)
  have len: "h < length (close g hp)" using Cons.prems by (simp add: close_def)
  show ?case
  proof (cases "h = g")
    case True
    then have "closed (close g hp ! h)" using Cons.prems by (simp add: close_def)
    then show ?thesis using closed_fold_close_mono [OF len] by simp
  next
    case False
    then have "h \<in> set hs" using Cons.prems by simp
    then show ?thesis using Cons.IH [OF _ len] by simp
  qed
qed

lemma store_for_fresh:
  "fresh_from n w \<Longrightarrow> n \<le> length (heap w) \<Longrightarrow> store_for k w = (r, w') \<Longrightarrow> fresh_from n w'"
  by (auto simp: store_for_def MmapedDict_open_def fresh_from_def split: option.splits if_splits)

lemma reset_fresh:
  "fresh_from n w \<Longrightarrow> n \<le> length (heap w) \<Longrightarrow> reset mk v w = (r, v', w') \<Longrightarrow> fresh_from n w'"
  by (auto simp: reset_def Let_def split: prod.splits sum.splits dest: store_for_fresh)

lemma reset_each_fresh:
  "fresh_from n w \<Longrightarrow> n \<le> length (heap w) \<Longrightarrow> reset_each mk vs w = (r, vs', w') \<Longrightarrow> fresh_from n w'"
proof (induction vs arbitrary: w r vs' w')
  case Nil
  then show ?case by simp
next
  case (Cons v vs)
  obtain r1 v1 w1 where a: "reset mk v w = (r1, v1, w1)" by (metis prod_cases3)
  have f1: "fresh_from n w1" using Cons.prems(1,2) a by (rule reset_fresh)
  have "grows w w1" using a by (rule reset_grows)
  then have n1: "n \<le> length (heap w1)" using Cons.prems(2) by (simp add: grows_def)
  show ?case
  proof (cases r1)
    case (Inl e)
    then show ?thesis using Cons.prems(3) a f1 by auto
  next
    case (Inr u)
    obtain r2 vs2 w2 where b: "reset_each mk vs w1 = (r2, vs2, w2)" by (metis prod_cases3)
    from Cons.IH [OF f1 n1 b] show ?thesis using Cons.prems(3) a b Inr by auto
  qed
qed

lemma store_ok_all_values [simp]: "store_ok (w\<lparr>all_values := vs\<rparr>) k h = store_ok w k h"
  by (simp add: store_ok_def split: option.splits)

lemma files_ok_all_values [simp]: "files_ok (w\<lparr>all_values := vs\<rparr>) = files_ok w"
  by (simp add: files_ok_def)

lemma attached_all_values [simp]: "attached mk (w\<lparr>all_values := vs\<rparr>) = attached mk w"
  by (rule ext) (simp add: attached_def)

lemma read_value_all_values [simp]: "read_value h k (w\<lparr>all_values := vs\<rparr>) = read_value h k w"
  by (simp add: read_value_def Let_def)

lemma reattached_all_values [simp]: "reattached mk (w\<lparr>all_values := vs\<rparr>) = reattached mk w"
  by (intro ext) (simp add: reattached_def)

lemma fresh_from_all_values [simp]: "fresh_from n (w\<lparr>all_values := vs\<rparr>) = fresh_from n w"
  by (simp add: fresh_from_def)

lemma check_same [simp]: "check_for_pid_change mk (pid w) w = (Inr (), w)"
  by (simp add: check_for_pid_change_def)

lemma check_changed:
  "pid w \<noteq> a \<Longrightarrow> check_for_pid_change mk a w =
     (case reset_each mk (all_values w) (closing (w\<lparr>pid := a\<rparr>)) of
        (r, vs, w4) \<Rightarrow> (r, w4\<lparr>all_values := vs\<rparr>))"
  by (simp add: check_for_pid_change_def closing_def Let_def)

lemma check_frame:
  assumes "check_for_pid_change mk a w = (r, w')"
  shows "pid w' = a \<and> environ w' = environ w \<and> warnings w' = warnings w \<and> disk w' = disk w \<and>
         broken w' = broken w \<and> length (all_values w') = length (all_values w) \<and>
         length (heap w) \<le> length (heap w')"
proof (cases "pid w = a")
  case True
  then show ?thesis using assms by auto
next
  case False
  obtain r4 vs w4 where e: "reset_each mk (all_values w) (closing (w\<lparr>pid := a\<rparr>)) = (r4, vs, w4)"
    by (metis prod_cases3)
  from reset_each_grows [OF e] have "grows (closing (w\<lparr>pid := a\<rparr>)) w4" "length vs = length (all_values w)"
    by simp_all
  moreover have "w' = w4\<lparr>all_values := vs\<rparr>"
    using assms False e by (simp add: check_changed)
  ultimately show ?thesis
    by (simp add: grows_def closing_def length_fold_close)
qed

lemma check_resync:
  assumes "pid w \<noteq> a" "check_for_pid_change mk a w = (Inr u, w')"
  shows "files_ok w' \<and> list_all2 (reattached mk w') (all_values w) (all_values w') \<and>
         fresh_from (length (heap w)) w' \<and>
         (\<forall>x \<in> set (files w). snd x < length (heap w) \<longrightarrow> closed (heap w' ! snd x))"
proof -
  let ?w3 = "closing (w\<lparr>pid := a\<rparr>)"
  obtain r4 vs w4 where e: "reset_each mk (all_values w) ?w3 = (r4, vs, w4)"
    by (metis prod_cases3)
  from assms e have r4: "r4 = Inr u" and w': "w' = w4\<lparr>all_values := vs\<rparr>"
    by (simp_all add: check_changed)
  have ok3: "files_ok ?w3" by (simp add: files_ok_def closing_def)
  from reset_each_ok [OF ok3 e [unfolded r4]]
  have ok4: "files_ok w4" and re: "list_all2 (reattached mk w4) (all_values w) vs" by simp_all
  have fr3: "fresh_from (length (heap w)) ?w3" by (simp add: fresh_from_def closing_def)
  have len3: "length (heap w) \<le> length (heap ?w3)" by (simp add: closing_def length_fold_close)
  have fr4: "fresh_from (length (heap w)) w4" using fr3 len3 e by (rule reset_each_fresh)
  have g: "grows ?w3 w4" using reset_each_grows [OF e] by simp
  have cl: "\<forall>x \<in> set (files w). snd x < length (heap w) \<longrightarrow> closed (heap w4 ! snd x)"
  proof (intro ballI impI)
    fix x assume x: "x \<in> set (files w)" and l: "snd x < length (heap w)"
    have "closed (heap ?w3 ! snd x)"
      using x l by (simp add: closing_def closed_fold_close)
    moreover have "heap w4 ! snd x = heap ?w3 ! snd x"
      using g l by (intro grows_heap_nth) (simp_all add: closing_def length_fold_close)
    ultimately show "closed (heap w4 ! snd x)" by simp
  qed
  show ?thesis using ok4 re fr4 cl w' by simp
qed

lemma list_all2_reattached_attached:
  "list_all2 (reattached mk w) vs vs' \<Longrightarrow> \<forall>v \<in> set vs'. attached mk w v"
  by (induction rule: list_all2_induct) (simp_all add: reattached_def)

lemma check_consistent:
  assumes "consistent mk w" "check_for_pid_change mk a w = (Inr u, w')"
  shows "consistent mk w'"
proof (cases "pid w = a")
  case True
  then show ?thesis using assms by auto
next
  case False
  from check_resync [OF False assms(2)]
  have "files_ok w'" and "list_all2 (reattached mk w') (all_values w) (all_values w')"
    by simp_all
  then show ?thesis
    using list_all2_reattached_attached [of mk w' "all_values w" "all_values w'"]
    by (simp add: consistent_def)
qed

lemma write_value_cases:
  assumes "write_value h k x w = (r, w')"
  shows "(r = Inr () \<and> h < length (heap w) \<and> \<not> closed (heap w ! h) \<and> filename (heap w ! h) \<notin> broken w \<and>
          w' = w\<lparr>disk := (disk w)(filename (heap w ! h) := (disk w (filename (heap w ! h)))(k \<mapsto> x))\<rparr>) \<or>
         ((\<exists>e. r = Inl e) \<and> w' = w)"
  using assms by (auto simp: write_value_def Let_def split: if_splits)

lemma write_value_frame:
  assumes "write_value h k x w = (r, w')"
  shows "environ w' = environ w \<and> warnings w' = warnings w \<and> broken w' = broken w \<and>
         heap w' = heap w \<and> files w' = files w \<and> all_values w' = all_values w \<and> pid w' = pid w"
  using write_value_cases [OF assms] by auto

lemma write_value_read:
  assumes "write_value h k x w = (Inr u, w')"
  shows "read_value h k w' = Inr x"
  using write_value_cases [OF assms] by (auto simp: read_value_def)

lemma consistent_frame:
  assumes "environ w' = environ w" "heap w' = heap w" "files w' = files w" "pid w' = pid w"
    and "length (all_values w') = length (all_values w)"
    and "\<forall>i < length (all_values w).
           v_params (all_values w' ! i) = v_params (all_values w ! i) \<and>
           v_file (all_values w' ! i) = v_file (all_values w ! i) \<and>
           v_key (all_values w' ! i) = v_key (all_values w ! i)"
  shows "consistent mk w \<Longrightarrow> consistent mk w'"
proof -
  assume c: "consistent mk w"
  have f: "files_ok w'"
    using c assms(1-4) by (simp add: consistent_def files_ok_def store_ok_def split: option.splits)
  have "\<forall>v \<in> set (all_values w'). attached mk w' v"
  proof
    fix v assume "v \<in> set (all_values w')"
    then obtain i where i: "i < length (all_values w')" and v: "v = all_values w' ! i"
      by (auto simp: in_set_conv_nth)
    have "attached mk w (all_values w ! i)"
      using c i assms(5) by (simp add: consistent_def)
    then show "attached mk w' v"
      using assms(3,5,6) i v by (simp add: attached_def)
  qed
  then show ?thesis using f by (simp add: consistent_def)
qed

lemma inc_store_back:
  "inc mk a self amount w =
     (if self < length (all_values w) then
        (case check_for_pid_change mk a w of
           (Inl e, w1) \<Rightarrow> (Inl e, w1)
         | (Inr _, w1) \<Rightarrow> store_back self (v_value (all_values w1 ! self) + amount) w1)
      else (Inl NoSuchObject, w))"
  by (auto simp: inc_def store_back_def Let_def split: prod.splits sum.splits)

lemma set_store_back:
  "set_value mk a self x w =
     (if self < length (all_values w) then
        (case check_for_pid_change mk a w of
           (Inl e, w1) \<Rightarrow> (Inl e, w1)
         | (Inr _, w1) \<Rightarrow> store_back self x w1)
      else (Inl NoSuchObject, w))"
  by (auto simp: set_value_def store_back_def Let_def split: prod.splits sum.splits)

lemma store_back_frame:
  assumes "store_back self x w = (r, w')"
  shows "environ w' = environ w \<and> warnings w' = warnings w \<and> broken w' = broken w \<and>
         heap w' = heap w \<and> files w' = files w \<and> pid w' = pid w \<and>
         all_values w' = (all_values w)[self := (all_values w ! self)\<lparr>v_value := x\<rparr>]"
  using write_value_frame [OF assms [unfolded store_back_def Let_def]] by simp

lemma store_back_consistent:
  assumes "store_back self x w = (r, w')" "consistent mk w"
  shows "consistent mk w'"
proof -
  note f = store_back_frame [OF assms(1)]
  show ?thesis
  proof (rule consistent_frame [OF _ _ _ _ _ _ assms(2)])
    show "\<forall>i<length (all_values w).
       v_params (all_values w' ! i) = v_params (all_values w ! i) \<and>
       v_file (all_values w' ! i) = v_file (all_values w ! i) \<and>
       v_key (all_values w' ! i) = v_key (all_values w ! i)"
      using f by (cases "self < length (all_values w)") (auto simp: nth_list_update)
  qed (use f in simp_all)
qed

lemma copy_legacy_dir_consistent: "consistent mk w \<Longrightarrow> consistent mk (copy_legacy_dir w)"
proof -
  assume c: "consistent mk w"
  show ?thesis
  proof (cases "environ w ''PROMETHEUS_MULTIPROC_DIR''")
    case (Some d)
    then show ?thesis using c by (simp add: copy_legacy_dir_def split: option.splits)
  next
    case None
    then have "files w = []"
      using c by (cases "files w") (auto simp: consistent_def files_ok_def store_ok_def)
    then show ?thesis
      using c by (auto simp: copy_legacy_dir_def consistent_def files_ok_def attached_def split: option.splits)
  qed
qed

lemma init_consistent:
  assumes "consistent mk w" "init mk a p w = (Inr r, w')"
  shows "consistent mk w'"
proof -
  let ?w0 = "copy_legacy_dir w"
  obtain r1 w1 where c: "check_for_pid_change mk a ?w0 = (r1, w1)" by (metis prod.exhaust)
  obtain r2 v w2 where e: "reset mk (blank p) w1 = (r2, v, w2)" by (metis prod_cases3)
  from assms(2) c e obtain u1 u2 where r1: "r1 = Inr u1" and r2: "r2 = Inr u2"
    and w': "w' = w2\<lparr>all_values := all_values w2 @ [v]\<rparr>"
    by (cases r1; cases r2) (auto simp: init_def)
  have c1: "consistent mk w1"
    using check_consistent [OF copy_legacy_dir_consistent [OF assms(1)] c [unfolded r1]] .
  from reset_ok [OF _ e [unfolded r2]] c1
  have ok2: "files_ok w2" and at: "attached mk w2 v"
    by (simp_all add: consistent_def reattached_def)
  have g: "grows w1 w2" using e by (rule reset_grows)
  then have "\<forall>v \<in> set (all_values w2). attached mk w2 v"
    using c1 by (auto simp: consistent_def grows_def intro: grows_attached [OF g])
  then show ?thesis using ok2 at w' by (simp add: consistent_def)
qed

lemma inc_consistent:
  assumes "consistent mk w" "inc mk a self x w = (Inr u, w')"
  shows "consistent mk w'"
proof -
  obtain r1 w1 where c: "check_for_pid_change mk a w = (r1, w1)" by (metis prod.exhaust)
  from assms(2) c obtain u1 where r1: "r1 = Inr u1"
    and s: "store_back self (v_value (all_values w1 ! self) + x) w1 = (Inr u, w')"
    by (cases r1) (auto simp: inc_store_back split: if_splits)
  from check_consistent [OF assms(1) c [unfolded r1]] have "consistent mk w1" .
  with s show ?thesis by (rule store_back_consistent)
qed

lemma set_value_consistent:
  assumes "consistent mk w" "set_value mk a self x w = (Inr u, w')"
  shows "consistent mk w'"
proof -
  obtain r1 w1 where c: "check_for_pid_change mk a w = (r1, w1)" by (metis prod.exhaust)
  from assms(2) c obtain u1 where r1: "r1 = Inr u1"
    and s: "store_back self x w1 = (Inr u, w')"
    by (cases r1) (auto simp: set_store_back split: if_splits)
  from check_consistent [OF assms(1) c [unfolded r1]] have "consistent mk w1" .
  with s show ?thesis by (rule store_back_consistent)
qed

lemma get_consistent:
  assumes "consistent mk w" "get mk a self w = (Inr x, w')"
  shows "consistent mk w'"
proof -
  obtain r1 w1 where c: "check_for_pid_change mk a w = (r1, w1)" by (metis prod.exhaust)
  from assms(2) c obtain u1 where r1: "r1 = Inr u1" and w': "w' = w1"
    by (cases r1) (auto simp: get_def split: if_splits)
  from check_consistent [OF assms(1) c [unfolded r1]] show ?thesis using w' by simp
qed

lemma outcome_None: "outcome r = (None, w') \<Longrightarrow> \<exists>x. r = (Inr x, w')"
  by (cases r) (auto simp: outcome_def split: sum.splits)

lemma exec_consistent:
  assumes "consistent mk w" "exec mk c w = (None, w')"
  shows "consistent mk w'"
proof -
  obtain a o' where c: "c = (a, o')" by (cases c)
  show ?thesis
  proof (cases o')
    case (New p)
    with assms(2) c obtain r where "init mk a p w = (Inr r, w')"
      using outcome_None [of "init mk a p w" w'] by auto
    with assms(1) show ?thesis by (rule init_consistent)
  next
    case (Inc self x)
    with assms(2) c obtain r where "inc mk a self x w = (Inr r, w')"
      using outcome_None [of "inc mk a self x w" w'] by auto
    with assms(1) show ?thesis by (rule inc_consistent)
  next
    case (Set self x)
    with assms(2) c obtain r where "set_value mk a self x w = (Inr r, w')"
      using outcome_None [of "set_value mk a self x w" w'] by auto
    with assms(1) show ?thesis by (rule set_value_consistent)
  next
    case (Get self)
    with assms(2) c obtain r where "get mk a self w = (Inr r, w')"
      using outcome_None [of "get mk a self w" w'] by auto
    with assms(1) show ?thesis by (rule get_consistent)
  qed
qed

lemma reachable_consistent: "reachable mk w \<Longrightarrow> consistent mk w"
proof (induction rule: reachable.induct)
  case (start a w)
  show ?case by (simp add: MultiProcessValue_def consistent_def files_ok_def)
next
  case (step w c w')
  then show ?case by (auto intro: exec_consistent)
qed

subsection \<open>The backend selector\<close>

text \<open>
  Claim C6. \<open>get_value_class\<close> returns the class that \<open>MultiProcessValue\<close> builds (with
  empty \<open>files\<close> and \<open>values\<close> and the identity probed at that moment) when the
  environment has the directory under the legacy name \<open>prometheus_multiproc_dir\<close> or
  under the current name \<open>PROMETHEUS_MULTIPROC_DIR\<close>, and \<open>MutexValue\<close> when it has
  neither.
\<close>

theorem get_value_class_selects:
  "(environ w ''prometheus_multiproc_dir'' \<noteq> None \<or> environ w ''PROMETHEUS_MULTIPROC_DIR'' \<noteq> None
      \<longrightarrow> get_value_class a w = MmapedValue_class (MultiProcessValue a w) \<and>
          files (MultiProcessValue a w) = [] \<and> all_values (MultiProcessValue a w) = [] \<and>
          pid (MultiProcessValue a w) = a) \<and>
   (environ w ''prometheus_multiproc_dir'' = None \<and> environ w ''PROMETHEUS_MULTIPROC_DIR'' = None
      \<longrightarrow> get_value_class a w = MutexValue_class)"
  by (simp add: get_value_class_def MultiProcessValue_def)

theorem get_value_class_selects_witness:
  "get_value_class 100 (process_with legacy_env) =
     MmapedValue_class (MultiProcessValue 100 (process_with legacy_env)) \<and>
   get_value_class 100 (process_with current_env) =
     MmapedValue_class (MultiProcessValue 100 (process_with current_env)) \<and>
   get_value_class 100 (process_with Map.empty) = MutexValue_class"
  using get_value_class_selects [of "process_with legacy_env" 100]
    get_value_class_selects [of "process_with current_env" 100]
    get_value_class_selects [of "process_with Map.empty" 100]
  by (simp add: process_with_def legacy_env_def current_env_def)

subsection \<open>Exemplars in the shared backend\<close>

text \<open>
  Claim C7. In the shared backend \<open>set_exemplar\<close> returns without an error and leaves
  the state as it was, whatever the instance and the exemplar, and \<open>get_exemplar\<close>
  returns \<open>None\<close> without an error, also right after a \<open>set_exemplar\<close>.
\<close>

theorem exemplars_unsupported:
  "set_exemplar self exemplar w = (Inr (), w) \<and>
   get_exemplar self w = (Inr None, w) \<and>
   get_exemplar self (snd (set_exemplar self exemplar w)) = (Inr None, w)"
  by (simp add: set_exemplar_def get_exemplar_def)

subsection \<open>The concrete states\<close>

lemmas eval_defs = init_def copy_legacy_dir_def check_for_pid_change_def reset_def blank_def
  store_for_def file_prefix_of_def MmapedDict_open_def read_value_def write_value_def db_name_def
  Let_def os_path_join_def format_str_def str_int_def str_nat.simps digit_char_def
  inc_def set_value_def get_def example_key_def process_with_def current_env_def legacy_env_def
  counter_params_def gauge_params_def MultiProcessValue_def close_def

lemma str_int_100: "str_int 100 = ''100''"
  by (simp add: str_int_def str_nat.simps digit_char_def)

lemma one_counter_eq:
  "one_counter =
     \<lparr>environ = current_env, warnings = 0, disk = (\<lambda>_. Map.empty), broken = {},
      heap = [\<lparr>filename = ''/tmp/metrics/counter_100.db'', closed = False\<rparr>],
      files = [(Some ''counter'', 0)],
      all_values = [\<lparr>v_params = counter_params, v_file = 0, v_key = ''requests_total:requests_total::'', v_value = 0\<rparr>],
      pid = 100\<rparr>"
  by (simp add: one_counter_def started_def eval_defs)

lemma init_one: "init example_key 100 counter_params started = (Inr 0, one_counter)"
  by (simp add: one_counter_eq) (simp add: started_def eval_defs)

lemma two_counters_eq:
  "two_counters =
     \<lparr>environ = current_env, warnings = 0, disk = (\<lambda>_. Map.empty), broken = {},
      heap = [\<lparr>filename = ''/tmp/metrics/counter_100.db'', closed = False\<rparr>],
      files = [(Some ''counter'', 0)],
      all_values = [\<lparr>v_params = counter_params, v_file = 0, v_key = ''requests_total:requests_total::'', v_value = 0\<rparr>,
                    \<lparr>v_params = counter_params, v_file = 0, v_key = ''requests_total:requests_total::'', v_value = 0\<rparr>],
      pid = 100\<rparr>"
  by (simp add: two_counters_def one_counter_eq) (simp add: eval_defs)

lemma after_inc_eq:
  "inc example_key 100 0 5 two_counters =
     (Inr (), two_counters
        \<lparr>disk := (\<lambda>_. Map.empty)(''/tmp/metrics/counter_100.db'' := [''requests_total:requests_total::'' \<mapsto> 5]),
         all_values := [\<lparr>v_params = counter_params, v_file = 0, v_key = ''requests_total:requests_total::'', v_value = 5\<rparr>,
                        \<lparr>v_params = counter_params, v_file = 0, v_key = ''requests_total:requests_total::'', v_value = 0\<rparr>]\<rparr>)"
  by (simp add: two_counters_eq) (simp add: inc_def check_for_pid_change_def write_value_def Let_def)

subsection \<open>What \<open>inc\<close> and \<open>set\<close> change\<close>

lemma inc_set_unchanged:
  assumes "inc mk (pid w) self x w = (r, w') \<or> set_value mk (pid w) self x w = (r, w')"
  shows "files w' = files w \<and> pid w' = pid w \<and> heap w' = heap w \<and> environ w' = environ w \<and>
         warnings w' = warnings w \<and> broken w' = broken w \<and>
         length (all_values w') = length (all_values w) \<and>
         (\<forall>j < length (all_values w). j \<noteq> self \<longrightarrow> all_values w' ! j = all_values w ! j) \<and>
         (self < length (all_values w) \<longrightarrow>
            v_params (all_values w' ! self) = v_params (all_values w ! self) \<and>
            v_file (all_values w' ! self) = v_file (all_values w ! self) \<and>
            v_key (all_values w' ! self) = v_key (all_values w ! self)) \<and>
         (\<forall>path k. disk w' path k \<noteq> disk w path k \<longrightarrow>
            self < length (all_values w) \<and>
            path = filename (heap w ! v_file (all_values w ! self)) \<and>
            k = v_key (all_values w ! self))"
proof (cases "self < length (all_values w)")
  case False
  then have "w' = w" using assms by (auto simp: inc_def set_value_def)
  then show ?thesis by simp
next
  case True
  from assms True obtain y where s: "store_back self y w = (r, w')"
    by (auto simp: inc_store_back set_store_back)
  let ?v = "(all_values w ! self)\<lparr>v_value := y\<rparr>"
  let ?w2 = "w\<lparr>all_values := (all_values w)[self := ?v]\<rparr>"
  have wv: "write_value (v_file ?v) (v_key ?v) (v_value ?v) ?w2 = (r, w')"
    using s by (simp add: store_back_def Let_def)
  note f = store_back_frame [OF s]
  have d: "\<forall>path k. disk w' path k \<noteq> disk w path k \<longrightarrow>
            path = filename (heap w ! v_file (all_values w ! self)) \<and> k = v_key (all_values w ! self)"
    using write_value_cases [OF wv] by (auto split: if_splits)
  show ?thesis using f d True by (simp add: nth_list_update)
qed

text \<open>
  Claim C10. When \<open>inc\<close> or \<open>set\<close> runs on an instance and the identity probe equals the
  cached identity, then, whether the call returns or raises, \<open>files\<close>, the cached
  identity, the store objects, the environment and the length of \<open>values\<close> are as
  before, every other instance is as before, the instance keeps its parameters, its
  store and its key, and the only entry of the disk that can differ is the one under
  the instance's key in the file of the instance's store.
\<close>

theorem inc_set_frame:
  assumes "inc mk (pid w) self x w = (r, w') \<or> set_value mk (pid w) self x w = (r, w')"
  shows "files w' = files w \<and> pid w' = pid w \<and> heap w' = heap w \<and> environ w' = environ w \<and>
         warnings w' = warnings w \<and> broken w' = broken w \<and>
         length (all_values w') = length (all_values w) \<and>
         (\<forall>j < length (all_values w). j \<noteq> self \<longrightarrow> all_values w' ! j = all_values w ! j) \<and>
         (self < length (all_values w) \<longrightarrow>
            v_params (all_values w' ! self) = v_params (all_values w ! self) \<and>
            v_file (all_values w' ! self) = v_file (all_values w ! self) \<and>
            v_key (all_values w' ! self) = v_key (all_values w ! self)) \<and>
         (\<forall>path k. disk w' path k \<noteq> disk w path k \<longrightarrow>
            self < length (all_values w) \<and>
            path = filename (heap w ! v_file (all_values w ! self)) \<and>
            k = v_key (all_values w ! self))"
  using assms by (rule inc_set_unchanged)

theorem inc_set_frame_witness:
  "inc example_key (pid two_counters) 0 5 two_counters = (Inr (), after_inc) \<and>
   files after_inc = files two_counters \<and> pid after_inc = pid two_counters \<and>
   heap after_inc = heap two_counters \<and>
   length (all_values after_inc) = length (all_values two_counters) \<and>
   all_values after_inc ! 1 = all_values two_counters ! 1 \<and>
   v_value (all_values after_inc ! 0) = 5 \<and>
   disk after_inc ''/tmp/metrics/counter_100.db'' ''requests_total:requests_total::'' = Some 5 \<and>
   disk after_inc =
     (disk two_counters)(''/tmp/metrics/counter_100.db'' := [''requests_total:requests_total::'' \<mapsto> 5])"
proof -
  have p: "pid two_counters = 100" by (simp add: two_counters_eq)
  have e: "inc example_key (pid two_counters) 0 5 two_counters = (Inr (), after_inc)"
    by (simp add: p after_inc_def after_inc_eq)
  have v: "v_value (all_values after_inc ! 0) = 5"
    "disk after_inc ''/tmp/metrics/counter_100.db'' ''requests_total:requests_total::'' = Some 5"
    by (simp_all add: after_inc_def after_inc_eq)
  have d1: "disk two_counters = (\<lambda>_. Map.empty)"
    by (simp add: two_counters_eq)
  have d2: "disk after_inc =
     (\<lambda>_. Map.empty)(''/tmp/metrics/counter_100.db'' := [''requests_total:requests_total::'' \<mapsto> 5])"
    by (simp add: after_inc_def after_inc_eq)
  have d: "disk after_inc =
     (disk two_counters)(''/tmp/metrics/counter_100.db'' := [''requests_total:requests_total::'' \<mapsto> 5])"
    by (simp only: d1 d2)
  have l: "(1::nat) < length (all_values two_counters)" by (simp add: two_counters_eq)
  note t = inc_set_frame [OF disjI1 [OF e]]
  have fr: "files after_inc = files two_counters" "pid after_inc = pid two_counters"
    "heap after_inc = heap two_counters"
    "length (all_values after_inc) = length (all_values two_counters)"
    using t by blast+
  have "\<forall>j < length (all_values two_counters). j \<noteq> 0 \<longrightarrow>
          all_values after_inc ! j = all_values two_counters ! j"
    using t by blast
  then have o: "all_values after_inc ! 1 = all_values two_counters ! 1"
    using l by simp
  show ?thesis by (intro conjI e fr o v d)
qed

lemma store_back_read:
  assumes "store_back self y w = (Inr u, w')" "self < length (all_values w)"
  shows "read_value (v_file (all_values w' ! self)) (v_key (all_values w' ! self)) w' =
         Inr (v_value (all_values w' ! self)) \<and> v_value (all_values w' ! self) = y"
proof -
  let ?v = "(all_values w ! self)\<lparr>v_value := y\<rparr>"
  have wv: "write_value (v_file ?v) (v_key ?v) (v_value ?v) (w\<lparr>all_values := (all_values w)[self := ?v]\<rparr>) = (Inr u, w')"
    using assms(1) by (simp add: store_back_def Let_def)
  have "all_values w' ! self = ?v"
    using store_back_frame [OF assms(1)] assms(2) by simp
  then show ?thesis using write_value_read [OF wv] by simp
qed

text \<open>
  Claim C9. \<open>inc\<close> and \<open>set\<close> assign the cached float before they call \<open>write_value\<close>, and
  nothing restores it: when the identity check has returned and the call raises (so
  the store write raised), the instance's cached float is the value the operation was
  to leave (\<open>y\<close>), the other instances are as the check left them, and the disk is as
  it was before the call; so wherever the store does not already hold \<open>y\<close>, cache and
  store differ afterwards.
\<close>

theorem write_failure_no_rollback:
  assumes "check_for_pid_change mk a w = (Inr u, w1)"
    and "self < length (all_values w)"
    and "(inc mk a self amount w = (Inl e, w') \<and> y = v_value (all_values w1 ! self) + amount) \<or>
         set_value mk a self y w = (Inl e, w')"
  shows "all_values w' = (all_values w1)[self := (all_values w1 ! self)\<lparr>v_value := y\<rparr>] \<and>
         v_value (all_values w' ! self) = y \<and> disk w' = disk w1 \<and> disk w1 = disk w \<and>
         (\<forall>f k. disk w f k \<noteq> Some y \<longrightarrow> disk w' f k \<noteq> Some (v_value (all_values w' ! self)))"
proof -
  from assms have s: "store_back self y w1 = (Inl e, w')"
    by (auto simp: inc_store_back set_store_back)
  let ?v = "(all_values w1 ! self)\<lparr>v_value := y\<rparr>"
  have wv: "write_value (v_file ?v) (v_key ?v) (v_value ?v) (w1\<lparr>all_values := (all_values w1)[self := ?v]\<rparr>) = (Inl e, w')"
    using s by (simp add: store_back_def Let_def)
  have len: "self < length (all_values w1)"
    using check_frame [OF assms(1)] assms(2) by simp
  have d1: "disk w1 = disk w" using check_frame [OF assms(1)] by simp
  have d2: "disk w' = disk w1" using write_value_cases [OF wv] by auto
  have av: "all_values w' = (all_values w1)[self := ?v]"
    using store_back_frame [OF s] by simp
  then have "v_value (all_values w' ! self) = y" using len by simp
  then show ?thesis using av d1 d2 by simp
qed

theorem write_failure_no_rollback_witness:
  "check_for_pid_change example_key 100 broken_counters = (Inr (), broken_counters) \<and>
   fst (inc example_key 100 0 5 broken_counters) = Inl IOError \<and>
   v_value (all_values (snd (inc example_key 100 0 5 broken_counters)) ! 0) = 5 \<and>
   disk (snd (inc example_key 100 0 5 broken_counters)) = disk broken_counters \<and>
   disk (snd (inc example_key 100 0 5 broken_counters)) ''/tmp/metrics/counter_100.db''
     ''requests_total:requests_total::'' \<noteq> Some 5"
proof -
  have c: "check_for_pid_change example_key 100 broken_counters = (Inr (), broken_counters)"
    by (simp add: broken_counters_def two_counters_eq check_for_pid_change_def)
  have l: "0 < length (all_values broken_counters)"
    by (simp add: broken_counters_def two_counters_eq)
  have f: "fst (inc example_key 100 0 5 broken_counters) = Inl IOError"
    by (simp add: broken_counters_def two_counters_eq inc_def check_for_pid_change_def write_value_def Let_def)
  then have i: "inc example_key 100 0 5 broken_counters = (Inl IOError, snd (inc example_key 100 0 5 broken_counters))"
    by (metis prod.collapse)
  have y: "5 = v_value (all_values broken_counters ! 0) + 5"
    by (simp add: broken_counters_def two_counters_eq)
  have n: "disk broken_counters ''/tmp/metrics/counter_100.db'' ''requests_total:requests_total::'' \<noteq> Some 5"
    by (simp add: broken_counters_def two_counters_eq)
  from write_failure_no_rollback [OF c l disjI1 [OF conjI [OF i y]]] c f n l show ?thesis by simp
qed

subsection \<open>The counter scenario\<close>

lemma os_path_join_suffix:
  "b \<noteq> [] \<Longrightarrow> hd b \<noteq> CHR ''/'' \<Longrightarrow> \<exists>dir. os_path_join d b = dir @ b"
  by (auto simp: os_path_join_def)

lemma db_name_counter_100: "db_name (Some ''counter'') 100 = ''counter_100.db''"
  by (simp add: db_name_def format_str_def str_int_100)

lemma init_fresh_factory:
  assumes "environ w0 ''PROMETHEUS_MULTIPROC_DIR'' = Some d"
    and "os_path_join d (db_name (file_prefix_of p) a) \<notin> broken w0"
  shows "init mk a p (MultiProcessValue a w0) =
     (Inr 0, w0\<lparr>heap := heap w0 @ [\<lparr>filename = os_path_join d (db_name (file_prefix_of p) a), closed = False\<rparr>],
              files := [(file_prefix_of p, length (heap w0))],
              all_values := [\<lparr>v_params = p, v_file = length (heap w0),
                              v_key = mk (metric_name p) (name p) (labelnames p) (labelvalues p),
                              v_value = (case disk w0 (os_path_join d (db_name (file_prefix_of p) a))
                                           (mk (metric_name p) (name p) (labelnames p) (labelvalues p)) of
                                           None \<Rightarrow> 0 | Some x \<Rightarrow> x)\<rparr>],
              pid := a\<rparr>)"
  using assms
  by (simp add: init_def MultiProcessValue_def copy_legacy_dir_def check_for_pid_change_def reset_def blank_def
      store_for_def MmapedDict_open_def read_value_def Let_def split: option.splits)


lemma check_same_eq: "pid w = a \<Longrightarrow> check_for_pid_change mk a w = (Inr (), w)"
  by (simp add: check_for_pid_change_def)

lemma inc_same:
  assumes "pid w = a" "self < length (all_values w)"
    and "v_file (all_values w ! self) < length (heap w)"
    and "\<not> closed (heap w ! v_file (all_values w ! self))"
    and "filename (heap w ! v_file (all_values w ! self)) \<notin> broken w"
  shows "inc mk a self x w =
     (Inr (), w\<lparr>all_values := (all_values w)[self := (all_values w ! self)\<lparr>v_value := v_value (all_values w ! self) + x\<rparr>],
               disk := (disk w)(filename (heap w ! v_file (all_values w ! self)) :=
                  (disk w (filename (heap w ! v_file (all_values w ! self))))
                    (v_key (all_values w ! self) \<mapsto> v_value (all_values w ! self) + x))\<rparr>)"
  using assms by (simp add: inc_def check_same_eq write_value_def Let_def)

lemma write_through:
  assumes "inc mk a self x w = (Inr u, w') \<or> set_value mk a self x w = (Inr u, w')"
  shows "read_value (v_file (all_values w' ! self)) (v_key (all_values w' ! self)) w' =
         Inr (v_value (all_values w' ! self))"
proof -
  obtain r1 w1 where c: "check_for_pid_change mk a w = (r1, w1)" by (metis prod.exhaust)
  from assms c obtain y where len: "self < length (all_values w)"
    and s: "store_back self y w1 = (Inr u, w')"
    by (cases r1) (auto simp: inc_store_back set_store_back split: if_splits)
  have "self < length (all_values w1)" using check_frame [OF c] len by simp
  from store_back_read [OF s this] show ?thesis by simp
qed

text \<open>
  Claim C4. A counter named \<open>requests_total\<close> without labels is constructed from a new
  factory while the identity probe is 100, in a process whose directory is \<open>d\<close>, whose
  file \<open>counter_100.db\<close> there can be used and has no entry under the instance's key.
  Then the construction returns, the instance's store is open on the path
  \<open>os.path.join(d, 'counter_100.db')\<close>, which ends in \<open>counter_100.db\<close>, and reads 0.0
  under the key; three calls \<open>inc(1.0)\<close> return, after which \<open>get()\<close> returns 3.0 and the
  store read under the instance's key gives 3.0; after each of the three the store
  holds the cached float. In general, whenever \<open>inc\<close> or \<open>set\<close> returns (whatever the
  probe, so also with the identity unchanged), the store read under the instance's
  key gives the instance's cached float.
\<close>

theorem counter_scenario:
  assumes "environ w0 ''PROMETHEUS_MULTIPROC_DIR'' = Some d"
    and "os_path_join d ''counter_100.db'' \<notin> broken w0"
    and "disk w0 (os_path_join d ''counter_100.db'') (mk ''requests_total'' nm [] []) = None"
    and "p = \<lparr>metric_typ = Some ''counter'', metric_name = ''requests_total'', name = nm,
              labelnames = [], labelvalues = [], multiprocess_mode = mode\<rparr>"
    and "w1 = snd (init mk 100 p (MultiProcessValue 100 w0))"
    and "w2 = snd (inc mk 100 0 1 w1)"
    and "w3 = snd (inc mk 100 0 1 w2)"
    and "w4 = snd (inc mk 100 0 1 w3)"
  shows "fst (init mk 100 p (MultiProcessValue 100 w0)) = Inr 0 \<and>
         filename (heap w1 ! v_file (all_values w1 ! 0)) = os_path_join d ''counter_100.db'' \<and>
         (\<exists>dir. filename (heap w1 ! v_file (all_values w1 ! 0)) = dir @ ''counter_100.db'') \<and>
         \<not> closed (heap w1 ! v_file (all_values w1 ! 0)) \<and>
         read_value (v_file (all_values w1 ! 0)) (v_key (all_values w1 ! 0)) w1 = Inr 0 \<and>
         fst (inc mk 100 0 1 w1) = Inr () \<and> fst (inc mk 100 0 1 w2) = Inr () \<and>
         fst (inc mk 100 0 1 w3) = Inr () \<and>
         get mk 100 0 w4 = (Inr 3, w4) \<and>
         read_value (v_file (all_values w4 ! 0)) (v_key (all_values w4 ! 0)) w4 = Inr 3 \<and>
         (\<forall>w \<in> {w2, w3, w4}.
            read_value (v_file (all_values w ! 0)) (v_key (all_values w ! 0)) w =
            Inr (v_value (all_values w ! 0))) \<and>
         (\<forall>a self x w w'.
            inc mk a self x w = (Inr (), w') \<or> set_value mk a self x w = (Inr (), w') \<longrightarrow>
            read_value (v_file (all_values w' ! self)) (v_key (all_values w' ! self)) w' =
            Inr (v_value (all_values w' ! self)))"
proof -
  have pre: "file_prefix_of p = Some ''counter''"
    using assms(4) by (simp add: file_prefix_of_def)
  note n = db_name_counter_100
  have pf: "metric_name p = ''requests_total''" "name p = nm" "labelnames p = []" "labelvalues p = []"
    using assms(4) by simp_all
  have i: "init mk 100 p (MultiProcessValue 100 w0) =
     (Inr 0, w0\<lparr>heap := heap w0 @ [\<lparr>filename = os_path_join d ''counter_100.db'', closed = False\<rparr>],
              files := [(Some ''counter'', length (heap w0))],
              all_values := [\<lparr>v_params = p, v_file = length (heap w0),
                              v_key = mk ''requests_total'' nm [] [], v_value = 0\<rparr>],
              pid := 100\<rparr>)"
    using init_fresh_factory [of w0 d p 100 mk] assms(1-3) by (simp add: pre n pf)
  then have w1: "w1 = w0\<lparr>heap := heap w0 @ [\<lparr>filename = os_path_join d ''counter_100.db'', closed = False\<rparr>],
              files := [(Some ''counter'', length (heap w0))],
              all_values := [\<lparr>v_params = p, v_file = length (heap w0),
                              v_key = mk ''requests_total'' nm [] [], v_value = 0\<rparr>],
              pid := 100\<rparr>"
    using assms(5) by simp
  have i2: "inc mk 100 0 1 w1 = (Inr (), w1\<lparr>all_values := [\<lparr>v_params = p, v_file = length (heap w0),
                              v_key = mk ''requests_total'' nm [] [], v_value = 1\<rparr>],
               disk := (disk w0)(os_path_join d ''counter_100.db'' :=
                  (disk w0 (os_path_join d ''counter_100.db''))(mk ''requests_total'' nm [] [] \<mapsto> 1))\<rparr>)"
    using assms(2) by (subst inc_same) (simp_all add: w1)
  then have w2: "w2 = w1\<lparr>all_values := [\<lparr>v_params = p, v_file = length (heap w0),
                              v_key = mk ''requests_total'' nm [] [], v_value = 1\<rparr>],
               disk := (disk w0)(os_path_join d ''counter_100.db'' :=
                  (disk w0 (os_path_join d ''counter_100.db''))(mk ''requests_total'' nm [] [] \<mapsto> 1))\<rparr>"
    using assms(6) by simp
  have i3: "inc mk 100 0 1 w2 = (Inr (), w1\<lparr>all_values := [\<lparr>v_params = p, v_file = length (heap w0),
                              v_key = mk ''requests_total'' nm [] [], v_value = 2\<rparr>],
               disk := (disk w0)(os_path_join d ''counter_100.db'' :=
                  (disk w0 (os_path_join d ''counter_100.db''))(mk ''requests_total'' nm [] [] \<mapsto> 2))\<rparr>)"
    using assms(2) by (subst inc_same) (simp_all add: w2 w1)
  then have w3: "w3 = w1\<lparr>all_values := [\<lparr>v_params = p, v_file = length (heap w0),
                              v_key = mk ''requests_total'' nm [] [], v_value = 2\<rparr>],
               disk := (disk w0)(os_path_join d ''counter_100.db'' :=
                  (disk w0 (os_path_join d ''counter_100.db''))(mk ''requests_total'' nm [] [] \<mapsto> 2))\<rparr>"
    using assms(7) by simp
  have i4: "inc mk 100 0 1 w3 = (Inr (), w1\<lparr>all_values := [\<lparr>v_params = p, v_file = length (heap w0),
                              v_key = mk ''requests_total'' nm [] [], v_value = 3\<rparr>],
               disk := (disk w0)(os_path_join d ''counter_100.db'' :=
                  (disk w0 (os_path_join d ''counter_100.db''))(mk ''requests_total'' nm [] [] \<mapsto> 3))\<rparr>)"
    using assms(2) by (subst inc_same) (simp_all add: w3 w1)
  then have w4: "w4 = w1\<lparr>all_values := [\<lparr>v_params = p, v_file = length (heap w0),
                              v_key = mk ''requests_total'' nm [] [], v_value = 3\<rparr>],
               disk := (disk w0)(os_path_join d ''counter_100.db'' :=
                  (disk w0 (os_path_join d ''counter_100.db''))(mk ''requests_total'' nm [] [] \<mapsto> 3))\<rparr>"
    using assms(8) by simp
  have g: "get mk 100 0 w4 = (Inr 3, w4)"
    by (simp add: get_def check_same_eq w4 w1)
  have sfx: "\<exists>dir. os_path_join d ''counter_100.db'' = dir @ ''counter_100.db''"
    by (rule os_path_join_suffix) simp_all
  have r1: "read_value (v_file (all_values w1 ! 0)) (v_key (all_values w1 ! 0)) w1 = Inr 0"
    using assms(2,3) by (simp add: w1 read_value_def)
  have r2: "read_value (v_file (all_values w2 ! 0)) (v_key (all_values w2 ! 0)) w2 = Inr (v_value (all_values w2 ! 0))"
    using assms(2) by (simp add: w2 w1 read_value_def)
  have r3: "read_value (v_file (all_values w3 ! 0)) (v_key (all_values w3 ! 0)) w3 = Inr (v_value (all_values w3 ! 0))"
    using assms(2) by (simp add: w3 w1 read_value_def)
  have r4: "read_value (v_file (all_values w4 ! 0)) (v_key (all_values w4 ! 0)) w4 = Inr (v_value (all_values w4 ! 0))"
    using assms(2) by (simp add: w4 w1 read_value_def)
  have v4: "v_value (all_values w4 ! 0) = 3" by (simp add: w4)
  have f1: "filename (heap w1 ! v_file (all_values w1 ! 0)) = os_path_join d ''counter_100.db''"
    "\<not> closed (heap w1 ! v_file (all_values w1 ! 0))"
    by (simp_all add: w1)
  have gen: "\<forall>a self x w w'.
            inc mk a self x w = (Inr (), w') \<or> set_value mk a self x w = (Inr (), w') \<longrightarrow>
            read_value (v_file (all_values w' ! self)) (v_key (all_values w' ! self)) w' =
            Inr (v_value (all_values w' ! self))"
    by (intro allI impI) (rule write_through)
  have sc: "fst (init mk 100 p (MultiProcessValue 100 w0)) = Inr 0 \<and>
         filename (heap w1 ! v_file (all_values w1 ! 0)) = os_path_join d ''counter_100.db'' \<and>
         (\<exists>dir. filename (heap w1 ! v_file (all_values w1 ! 0)) = dir @ ''counter_100.db'') \<and>
         \<not> closed (heap w1 ! v_file (all_values w1 ! 0)) \<and>
         read_value (v_file (all_values w1 ! 0)) (v_key (all_values w1 ! 0)) w1 = Inr 0 \<and>
         fst (inc mk 100 0 1 w1) = Inr () \<and> fst (inc mk 100 0 1 w2) = Inr () \<and>
         fst (inc mk 100 0 1 w3) = Inr () \<and>
         get mk 100 0 w4 = (Inr 3, w4) \<and>
         read_value (v_file (all_values w4 ! 0)) (v_key (all_values w4 ! 0)) w4 = Inr 3 \<and>
         (\<forall>w \<in> {w2, w3, w4}.
            read_value (v_file (all_values w ! 0)) (v_key (all_values w ! 0)) w =
            Inr (v_value (all_values w ! 0)))"
    using i i2 i3 i4 g sfx r1 r2 r3 r4 v4 f1 by simp
  show ?thesis using sc gen by blast
qed

theorem counter_scenario_witness:
  "fst (init example_key 100 counter_params started) = Inr 0 \<and>
   filename (heap one_counter ! v_file (all_values one_counter ! 0)) = ''/tmp/metrics/counter_100.db'' \<and>
   get example_key 100 0 three_incs = (Inr 3, three_incs) \<and>
   read_value (v_file (all_values three_incs ! 0)) (v_key (all_values three_incs ! 0)) three_incs = Inr 3"
proof -
  have a1: "environ (process_with current_env) ''PROMETHEUS_MULTIPROC_DIR'' = Some ''/tmp/metrics''"
    by (simp add: process_with_def current_env_def)
  have j: "os_path_join ''/tmp/metrics'' ''counter_100.db'' = ''/tmp/metrics/counter_100.db''"
    by (simp add: os_path_join_def)
  have a2: "os_path_join ''/tmp/metrics'' ''counter_100.db'' \<notin> broken (process_with current_env)"
    by (simp add: process_with_def)
  have a3: "disk (process_with current_env) (os_path_join ''/tmp/metrics'' ''counter_100.db'')
              (example_key ''requests_total'' ''requests_total'' [] []) = None"
    by (simp add: process_with_def)
  have a4: "counter_params = \<lparr>metric_typ = Some ''counter'', metric_name = ''requests_total'',
              name = ''requests_total'', labelnames = [], labelvalues = [], multiprocess_mode = []\<rparr>"
    by (simp add: counter_params_def)
  have a5: "one_counter = snd (init example_key 100 counter_params (MultiProcessValue 100 (process_with current_env)))"
    by (simp add: one_counter_def started_def)
  from counter_scenario [OF a1 a2 a3 a4 a5 refl refl refl]
  show ?thesis by (simp add: three_incs_def started_def j)
qed

subsection \<open>Instances with the same identity tuple\<close>

lemma init_two: "init example_key 100 counter_params one_counter = (Inr 1, two_counters)"
  by (simp add: two_counters_eq) (simp add: one_counter_eq eval_defs)

lemma reachable_started: "reachable mk started"
  unfolding started_def by (rule reachable.start)

lemma reachable_one_counter: "reachable example_key one_counter"
  by (rule reachable.step [OF reachable_started, of _ "(100, New counter_params)"])
     (simp add: outcome_def init_one)

lemma reachable_two_counters: "reachable example_key two_counters"
  by (rule reachable.step [OF reachable_one_counter, of "(100, New counter_params)"])
     (simp add: outcome_def init_two)

lemma one_gauge_eq:
  "one_gauge =
     \<lparr>environ = current_env, warnings = 0, disk = (\<lambda>_. Map.empty), broken = {},
      heap = [\<lparr>filename = ''/tmp/metrics/gauge_min_100.db'', closed = False\<rparr>],
      files = [(Some ''gauge_min'', 0)],
      all_values = [\<lparr>v_params = gauge_params ''min'', v_file = 0, v_key = ''in_progress:in_progress::'', v_value = 0\<rparr>],
      pid = 100\<rparr>"
  by (simp add: one_gauge_def started_def eval_defs)

lemma init_one_gauge: "init example_key 100 (gauge_params ''min'') started = (Inr 0, one_gauge)"
  by (simp add: one_gauge_eq) (simp add: started_def eval_defs)

lemma two_gauges_eq:
  "two_gauges =
     \<lparr>environ = current_env, warnings = 0, disk = (\<lambda>_. Map.empty), broken = {},
      heap = [\<lparr>filename = ''/tmp/metrics/gauge_min_100.db'', closed = False\<rparr>,
              \<lparr>filename = ''/tmp/metrics/gauge_max_100.db'', closed = False\<rparr>],
      files = [(Some ''gauge_min'', 0), (Some ''gauge_max'', 1)],
      all_values = [\<lparr>v_params = gauge_params ''min'', v_file = 0, v_key = ''in_progress:in_progress::'', v_value = 0\<rparr>,
                    \<lparr>v_params = gauge_params ''max'', v_file = 1, v_key = ''in_progress:in_progress::'', v_value = 0\<rparr>],
      pid = 100\<rparr>"
  by (simp add: two_gauges_def one_gauge_eq) (simp add: eval_defs)

lemma init_two_gauges: "init example_key 100 (gauge_params ''max'') one_gauge = (Inr 1, two_gauges)"
  by (simp add: two_gauges_eq) (simp add: one_gauge_eq eval_defs)

lemma reachable_two_gauges: "reachable example_key two_gauges"
proof -
  have "reachable example_key one_gauge"
    by (rule reachable.step [OF reachable_started, of _ "(100, New (gauge_params ''min''))"])
       (simp add: outcome_def init_one_gauge)
  then show ?thesis
    by (rule reachable.step [of _ _ "(100, New (gauge_params ''max''))"])
       (simp add: outcome_def init_two_gauges)
qed

lemma consistent_nth:
  "consistent mk w \<Longrightarrow> i < length (all_values w) \<Longrightarrow> attached mk w (all_values w ! i)"
  by (simp add: consistent_def)

text \<open>
  Claim C1, as amended. In a state that calls which all returned lead to, two
  instances of the factory with the same identity tuple and aggregation mode have the
  same storage key and the same store. After \<open>inc\<close> or \<open>set\<close> through one of them
  returns, with the identity unchanged, the store read under that key gives the
  value written; \<open>get()\<close> on the other instance returns that instance's own cached
  float, which the write has not changed.
\<close>

theorem same_identity_same_slot:
  assumes "reachable mk w"
    and "i < length (all_values w)" "j < length (all_values w)" "i \<noteq> j"
    and "v_params (all_values w ! i) = v_params (all_values w ! j)"
    and "inc mk (pid w) i x w = (Inr (), w') \<or> set_value mk (pid w) i x w = (Inr (), w')"
  shows "v_key (all_values w ! i) = v_key (all_values w ! j) \<and>
         v_file (all_values w ! i) = v_file (all_values w ! j) \<and>
         read_value (v_file (all_values w' ! j)) (v_key (all_values w' ! j)) w' =
           Inr (v_value (all_values w' ! i)) \<and>
         get mk (pid w) j w' = (Inr (v_value (all_values w ! j)), w')"
proof -
  have c: "consistent mk w" using assms(1) by (rule reachable_consistent)
  have ai: "attached mk w (all_values w ! i)" and aj: "attached mk w (all_values w ! j)"
    using c assms(2,3) by (simp_all add: consistent_nth)
  have k: "v_key (all_values w ! i) = v_key (all_values w ! j)"
    and f: "v_file (all_values w ! i) = v_file (all_values w ! j)"
    using ai aj assms(5) by (simp_all add: attached_def)
  note fr = inc_set_unchanged [OF assms(6)]
  have j': "all_values w' ! j = all_values w ! j"
    using fr assms(3,4) by simp
  have i': "v_file (all_values w' ! i) = v_file (all_values w ! i)"
    "v_key (all_values w' ! i) = v_key (all_values w ! i)"
    using fr assms(2) by simp_all
  have "read_value (v_file (all_values w' ! i)) (v_key (all_values w' ! i)) w' =
          Inr (v_value (all_values w' ! i))"
    using assms(6) by (rule write_through)
  then have r: "read_value (v_file (all_values w' ! j)) (v_key (all_values w' ! j)) w' =
          Inr (v_value (all_values w' ! i))"
    using i' j' k f by simp
  have "pid w' = pid w" "length (all_values w') = length (all_values w)"
    using fr by simp_all
  then have g: "get mk (pid w) j w' = (Inr (v_value (all_values w ! j)), w')"
    using assms(3) j' by (simp add: get_def check_same_eq)
  show ?thesis using k f r g by simp
qed

theorem same_identity_same_slot_witness:
  "v_key (all_values two_counters ! 0) = v_key (all_values two_counters ! 1) \<and>
   v_file (all_values two_counters ! 0) = v_file (all_values two_counters ! 1) \<and>
   read_value (v_file (all_values after_inc ! 1)) (v_key (all_values after_inc ! 1)) after_inc = Inr 5 \<and>
   get example_key 100 1 after_inc = (Inr 0, after_inc)"
proof -
  have p: "pid two_counters = 100" by (simp add: two_counters_eq)
  have l: "0 < length (all_values two_counters)" "1 < length (all_values two_counters)"
    "(0::nat) \<noteq> 1"
    "v_params (all_values two_counters ! 0) = v_params (all_values two_counters ! 1)"
    by (simp_all add: two_counters_eq)
  have e: "inc example_key (pid two_counters) 0 5 two_counters = (Inr (), after_inc)"
    by (simp add: p after_inc_def after_inc_eq)
  have v: "v_value (all_values after_inc ! 0) = 5"
    by (simp add: after_inc_def after_inc_eq)
  have v': "v_value (all_values two_counters ! 1) = 0"
    by (simp add: two_counters_eq)
  from same_identity_same_slot [OF reachable_two_counters l disjI1 [OF e]] v v' p
  show ?thesis by simp
qed

text \<open>
  Claim C1 as stated fails: two counters are constructed with the same parameters
  while the probe is 100; they have the same key and the same store; \<open>inc(5)\<close> on the
  first returns and the store holds 5.0; \<open>get()\<close> on the second returns 0.0.
\<close>

theorem shared_write_not_seen_counterexample:
  "init example_key 100 counter_params started = (Inr 0, one_counter) \<and>
   init example_key 100 counter_params one_counter = (Inr 1, two_counters) \<and>
   v_params (all_values two_counters ! 0) = v_params (all_values two_counters ! 1) \<and>
   v_key (all_values two_counters ! 0) = v_key (all_values two_counters ! 1) \<and>
   v_file (all_values two_counters ! 0) = v_file (all_values two_counters ! 1) \<and>
   inc example_key 100 0 5 two_counters = (Inr (), after_inc) \<and>
   read_value (v_file (all_values after_inc ! 0)) (v_key (all_values after_inc ! 0)) after_inc = Inr 5 \<and>
   get example_key 100 1 after_inc = (Inr 0, after_inc) \<and>
   fst (get example_key 100 1 after_inc) \<noteq> Inr 5"
proof -
  have a: "inc example_key 100 0 5 two_counters = (Inr (), after_inc)"
    by (simp add: after_inc_def after_inc_eq)
  have g: "get example_key 100 1 after_inc = (Inr 0, after_inc)"
    by (simp add: after_inc_def after_inc_eq) (simp add: two_counters_eq get_def check_for_pid_change_def)
  have r: "read_value (v_file (all_values after_inc ! 0)) (v_key (all_values after_inc ! 0)) after_inc = Inr 5"
    by (simp add: after_inc_def after_inc_eq) (simp add: two_counters_eq read_value_def)
  show ?thesis using a g r init_one init_two by (simp add: two_counters_eq)
qed

subsection \<open>The name of the backing file\<close>

lemma os_path_join_inject:
  assumes "os_path_join d b = os_path_join d b'" "b \<noteq> []" "hd b \<noteq> CHR ''/''"
    "b' \<noteq> []" "hd b' \<noteq> CHR ''/''"
  shows "b = b'"
  using assms by (auto simp: os_path_join_def split: if_splits)

lemma db_name_gauge_inject:
  assumes "db_name (Some (''gauge_'' @ m)) i = db_name (Some (''gauge_'' @ m')) i"
  shows "m = m'"
proof -
  from assms have "m @ (''_'' @ str_int i @ ''.db'') = m' @ (''_'' @ str_int i @ ''.db'')"
    by (simp add: db_name_def format_str_def)
  then show ?thesis by (simp only: append_same_eq)
qed

text \<open>
  Claim C5. In a state that calls which all returned lead to, the store of every
  instance is open on the path \<open>os.path.join(d, file_prefix + '_' + str(pid) + '.db')\<close>,
  where \<open>d\<close> is the configured directory, \<open>pid\<close> the cached process identity, and
  \<open>file_prefix\<close> is the metric type, or \<open>'gauge_'\<close> followed by the aggregation mode
  when the type is \<open>'gauge'\<close>. So two gauges whose aggregation modes differ have
  different stores, on different files.
\<close>

theorem backing_file_name:
  assumes "reachable mk w" "v \<in> set (all_values w)"
  shows "file_prefix_of (v_params v) =
           (if metric_typ (v_params v) = Some ''gauge''
            then Some (''gauge_'' @ multiprocess_mode (v_params v))
            else metric_typ (v_params v)) \<and>
         (\<exists>d. environ w ''PROMETHEUS_MULTIPROC_DIR'' = Some d \<and>
              v_file v < length (heap w) \<and> \<not> closed (heap w ! v_file v) \<and>
              filename (heap w ! v_file v) =
                os_path_join d (format_str (file_prefix_of (v_params v)) @ ''_'' @ str_int (pid w) @ ''.db'')) \<and>
         (\<forall>v' \<in> set (all_values w).
            metric_typ (v_params v) = Some ''gauge'' \<and> metric_typ (v_params v') = Some ''gauge'' \<and>
            multiprocess_mode (v_params v) \<noteq> multiprocess_mode (v_params v') \<longrightarrow>
            v_file v \<noteq> v_file v' \<and> filename (heap w ! v_file v) \<noteq> filename (heap w ! v_file v'))"
proof -
  have c: "consistent mk w" using assms(1) by (rule reachable_consistent)
  have pre: "file_prefix_of (v_params v) =
           (if metric_typ (v_params v) = Some ''gauge''
            then Some (''gauge_'' @ multiprocess_mode (v_params v))
            else metric_typ (v_params v))"
    by (simp add: file_prefix_of_def split: option.splits)
  have ok: "\<And>u. u \<in> set (all_values w) \<Longrightarrow> store_ok w (file_prefix_of (v_params u)) (v_file u)"
  proof -
    fix u assume "u \<in> set (all_values w)"
    then have "map_of (files w) (file_prefix_of (v_params u)) = Some (v_file u)"
      using c by (simp add: consistent_def attached_def)
    then have "(file_prefix_of (v_params u), v_file u) \<in> set (files w)"
      by (rule map_of_SomeD)
    then show "store_ok w (file_prefix_of (v_params u)) (v_file u)"
      using c by (auto simp: consistent_def files_ok_def)
  qed
  from ok [OF assms(2)] obtain d where d: "environ w ''PROMETHEUS_MULTIPROC_DIR'' = Some d"
    and h: "v_file v < length (heap w)" "\<not> closed (heap w ! v_file v)"
    and fn: "filename (heap w ! v_file v) = os_path_join d (db_name (file_prefix_of (v_params v)) (pid w))"
    by (auto simp: store_ok_def split: option.splits)
  have diff: "\<forall>v' \<in> set (all_values w).
            metric_typ (v_params v) = Some ''gauge'' \<and> metric_typ (v_params v') = Some ''gauge'' \<and>
            multiprocess_mode (v_params v) \<noteq> multiprocess_mode (v_params v') \<longrightarrow>
            v_file v \<noteq> v_file v' \<and> filename (heap w ! v_file v) \<noteq> filename (heap w ! v_file v')"
  proof (intro ballI impI)
    fix v' assume v': "v' \<in> set (all_values w)"
      and g: "metric_typ (v_params v) = Some ''gauge'' \<and> metric_typ (v_params v') = Some ''gauge'' \<and>
              multiprocess_mode (v_params v) \<noteq> multiprocess_mode (v_params v')"
    from ok [OF v'] d
    have fn': "filename (heap w ! v_file v') = os_path_join d (db_name (file_prefix_of (v_params v')) (pid w))"
      by (simp add: store_ok_def)
    have p1: "file_prefix_of (v_params v) = Some (''gauge_'' @ multiprocess_mode (v_params v))"
      and p2: "file_prefix_of (v_params v') = Some (''gauge_'' @ multiprocess_mode (v_params v'))"
      using g by (simp_all add: file_prefix_of_def)
    have ne: "filename (heap w ! v_file v) \<noteq> filename (heap w ! v_file v')"
    proof
      assume "filename (heap w ! v_file v) = filename (heap w ! v_file v')"
      then have "os_path_join d (db_name (Some (''gauge_'' @ multiprocess_mode (v_params v))) (pid w)) =
                 os_path_join d (db_name (Some (''gauge_'' @ multiprocess_mode (v_params v'))) (pid w))"
        using fn fn' p1 p2 by simp
      then have "db_name (Some (''gauge_'' @ multiprocess_mode (v_params v))) (pid w) =
                 db_name (Some (''gauge_'' @ multiprocess_mode (v_params v'))) (pid w)"
        by (rule os_path_join_inject) (simp_all add: db_name_def format_str_def)
      then have "multiprocess_mode (v_params v) = multiprocess_mode (v_params v')"
        by (rule db_name_gauge_inject)
      then show False using g by simp
    qed
    then show "v_file v \<noteq> v_file v' \<and> filename (heap w ! v_file v) \<noteq> filename (heap w ! v_file v')"
      by auto
  qed
  show ?thesis using pre d h fn diff by (simp add: db_name_def)
qed

theorem backing_file_name_witness:
  "filename (heap two_gauges ! v_file (all_values two_gauges ! 0)) = ''/tmp/metrics/gauge_min_100.db'' \<and>
   filename (heap two_gauges ! v_file (all_values two_gauges ! 1)) = ''/tmp/metrics/gauge_max_100.db'' \<and>
   v_file (all_values two_gauges ! 0) \<noteq> v_file (all_values two_gauges ! 1) \<and>
   filename (heap one_counter ! v_file (all_values one_counter ! 0)) = ''/tmp/metrics/counter_100.db''"
proof -
  let ?a = "\<lparr>v_params = gauge_params ''min'', v_file = 0, v_key = ''in_progress:in_progress::'', v_value = 0\<rparr>"
  let ?b = "\<lparr>v_params = gauge_params ''max'', v_file = 1, v_key = ''in_progress:in_progress::'', v_value = 0\<rparr>"
  let ?c = "\<lparr>v_params = counter_params, v_file = 0, v_key = ''requests_total:requests_total::'', v_value = 0\<rparr>"
  have m: "?a \<in> set (all_values two_gauges)" "?b \<in> set (all_values two_gauges)"
    by (simp_all add: two_gauges_eq)
  have n: "?c \<in> set (all_values one_counter)"
    by (simp add: one_counter_eq)
  have nth: "all_values two_gauges ! 0 = ?a" "all_values two_gauges ! Suc 0 = ?b"
    "all_values one_counter ! 0 = ?c"
    by (simp_all add: two_gauges_eq one_counter_eq)
  have j: "os_path_join ''/tmp/metrics'' ''gauge_min_100.db'' = ''/tmp/metrics/gauge_min_100.db''"
    "os_path_join ''/tmp/metrics'' ''gauge_max_100.db'' = ''/tmp/metrics/gauge_max_100.db''"
    "os_path_join ''/tmp/metrics'' ''counter_100.db'' = ''/tmp/metrics/counter_100.db''"
    by (simp_all add: os_path_join_def)
  have e: "environ two_gauges ''PROMETHEUS_MULTIPROC_DIR'' = Some ''/tmp/metrics''"
    "environ one_counter ''PROMETHEUS_MULTIPROC_DIR'' = Some ''/tmp/metrics''"
    "pid two_gauges = 100" "pid one_counter = 100"
    by (simp_all add: two_gauges_eq one_counter_eq current_env_def)
  have fp: "file_prefix_of (gauge_params ''min'') = Some ''gauge_min''"
    "file_prefix_of (gauge_params ''max'') = Some ''gauge_max''"
    "file_prefix_of counter_params = Some ''counter''"
    by (simp_all add: file_prefix_of_def gauge_params_def counter_params_def)
  have md: "metric_typ (gauge_params ''min'') = Some ''gauge''"
    "metric_typ (gauge_params ''max'') = Some ''gauge''"
    "multiprocess_mode (gauge_params ''min'') \<noteq> multiprocess_mode (gauge_params ''max'')"
    by (simp_all add: gauge_params_def)
  have 1: "filename (heap two_gauges ! 0) = ''/tmp/metrics/gauge_min_100.db''"
    using backing_file_name [OF reachable_two_gauges m(1)]
    by (simp add: e fp j format_str_def str_int_100)
  have 2: "filename (heap two_gauges ! 1) = ''/tmp/metrics/gauge_max_100.db''"
    using backing_file_name [OF reachable_two_gauges m(2)]
    by (simp add: e fp j format_str_def str_int_100)
  have 3: "filename (heap one_counter ! 0) = ''/tmp/metrics/counter_100.db''"
    using backing_file_name [OF reachable_one_counter n]
    by (simp add: e fp j format_str_def str_int_100)
  have "\<forall>v' \<in> set (all_values two_gauges).
            metric_typ (v_params ?a) = Some ''gauge'' \<and> metric_typ (v_params v') = Some ''gauge'' \<and>
            multiprocess_mode (v_params ?a) \<noteq> multiprocess_mode (v_params v') \<longrightarrow>
            v_file ?a \<noteq> v_file v' \<and> filename (heap two_gauges ! v_file ?a) \<noteq> filename (heap two_gauges ! v_file v')"
    using backing_file_name [OF reachable_two_gauges m(1)] by blast
  from bspec [OF this m(2)] md have 4: "v_file ?a \<noteq> v_file ?b" by simp
  show ?thesis using 1 2 3 4 by (simp add: nth)
qed

subsection \<open>The identity check\<close>

lemma copy_legacy_dir_environ:
  "environ w1 = environ (copy_legacy_dir w) \<Longrightarrow> copy_legacy_dir w1 = w1"
  by (auto simp: copy_legacy_dir_def split: option.splits)

lemma inc_after_check:
  assumes "self < length (all_values w)" "check_for_pid_change mk a w = (Inr u, w1)"
  shows "inc mk a self x w = inc mk (pid w1) self x w1"
    and "set_value mk a self x w = set_value mk (pid w1) self x w1"
    and "get mk a self w = get mk (pid w1) self w1"
proof -
  have l: "self < length (all_values w1)" using check_frame [OF assms(2)] assms(1) by simp
  show "inc mk a self x w = inc mk (pid w1) self x w1"
    using assms l by (simp add: inc_def)
  show "set_value mk a self x w = set_value mk (pid w1) self x w1"
    using assms l by (simp add: set_value_def)
  show "get mk a self w = get mk (pid w1) self w1"
    using assms l by (simp add: get_def)
qed

lemma init_after_check:
  assumes "check_for_pid_change mk a (copy_legacy_dir w) = (Inr u, w1)"
  shows "init mk a p w = init mk (pid w1) p w1"
proof -
  have "environ w1 = environ (copy_legacy_dir w)" using check_frame [OF assms] by simp
  then have "copy_legacy_dir w1 = w1" by (rule copy_legacy_dir_environ)
  then show ?thesis using assms by (simp add: init_def)
qed

lemma init_appends:
  assumes "check_for_pid_change mk a (copy_legacy_dir w) = (Inr u, w1)"
    and "init mk a p w = (Inr r, w')"
  shows "r = length (all_values w1) \<and> all_values w' = all_values w1 @ [all_values w' ! r]"
proof -
  obtain r2 v w2 where e: "reset mk (blank p) w1 = (r2, v, w2)" by (metis prod_cases3)
  from assms e have "r = length (all_values w2)" "w' = w2\<lparr>all_values := all_values w2 @ [v]\<rparr>"
    by (cases r2; auto simp: init_def)+
  moreover have "all_values w2 = all_values w1" using reset_grows [OF e] by (simp add: grows_def)
  ultimately show ?thesis by simp
qed

lemma exec_pid:
  assumes "exec mk (a, c) w = (None, w')"
  shows "pid w' = a"
proof (cases c)
  case (New p)
  with assms obtain r where i: "init mk a p w = (Inr r, w')"
    using outcome_None [of "init mk a p w" w'] by auto
  obtain r1 w1 where c1: "check_for_pid_change mk a (copy_legacy_dir w) = (r1, w1)" by (metis prod.exhaust)
  obtain r2 v w2 where e: "reset mk (blank p) w1 = (r2, v, w2)" by (metis prod_cases3)
  from i c1 e have "w' = w2\<lparr>all_values := all_values w2 @ [v]\<rparr>"
    by (cases r1; cases r2) (auto simp: init_def)
  moreover have "pid w2 = pid w1" using reset_grows [OF e] by (simp add: grows_def)
  moreover have "pid w1 = a" using check_frame [OF c1] by simp
  ultimately show ?thesis by simp
next
  case (Inc self x)
  with assms obtain r where i: "inc mk a self x w = (Inr r, w')"
    using outcome_None [of "inc mk a self x w" w'] by auto
  obtain r1 w1 where c1: "check_for_pid_change mk a w = (r1, w1)" by (metis prod.exhaust)
  from i c1 obtain y where "store_back self y w1 = (Inr r, w')"
    by (cases r1) (auto simp: inc_store_back split: if_splits)
  from store_back_frame [OF this] check_frame [OF c1] show ?thesis by simp
next
  case (Set self x)
  with assms obtain r where i: "set_value mk a self x w = (Inr r, w')"
    using outcome_None [of "set_value mk a self x w" w'] by auto
  obtain r1 w1 where c1: "check_for_pid_change mk a w = (r1, w1)" by (metis prod.exhaust)
  from i c1 obtain y where "store_back self y w1 = (Inr r, w')"
    by (cases r1) (auto simp: set_store_back split: if_splits)
  from store_back_frame [OF this] check_frame [OF c1] show ?thesis by simp
next
  case (Get self)
  with assms obtain r where i: "get mk a self w = (Inr r, w')"
    using outcome_None [of "get mk a self w" w'] by auto
  obtain r1 w1 where c1: "check_for_pid_change mk a w = (r1, w1)" by (metis prod.exhaust)
  from i c1 have "w' = w1" by (cases r1) (auto simp: get_def split: if_splits)
  with check_frame [OF c1] show ?thesis by simp
qed

lemma after_inc_state:
  "after_inc =
     \<lparr>environ = current_env, warnings = 0,
      disk = (\<lambda>_. Map.empty)(''/tmp/metrics/counter_100.db'' := [''requests_total:requests_total::'' \<mapsto> 5]),
      broken = {},
      heap = [\<lparr>filename = ''/tmp/metrics/counter_100.db'', closed = False\<rparr>],
      files = [(Some ''counter'', 0)],
      all_values = [\<lparr>v_params = counter_params, v_file = 0, v_key = ''requests_total:requests_total::'', v_value = 5\<rparr>,
                    \<lparr>v_params = counter_params, v_file = 0, v_key = ''requests_total:requests_total::'', v_value = 0\<rparr>],
      pid = 100\<rparr>"
  by (simp add: after_inc_def after_inc_eq) (simp add: two_counters_eq)

lemma str_int_200: "str_int 200 = ''200''"
  by (simp add: str_int_def str_nat.simps digit_char_def)

lemma check_forked:
  "check_for_pid_change example_key 200 after_inc =
     (Inr (),
      \<lparr>environ = current_env, warnings = 0,
       disk = (\<lambda>_. Map.empty)(''/tmp/metrics/counter_100.db'' := [''requests_total:requests_total::'' \<mapsto> 5]),
       broken = {},
       heap = [\<lparr>filename = ''/tmp/metrics/counter_100.db'', closed = True\<rparr>,
               \<lparr>filename = ''/tmp/metrics/counter_200.db'', closed = False\<rparr>],
       files = [(Some ''counter'', 1)],
       all_values = [\<lparr>v_params = counter_params, v_file = 1, v_key = ''requests_total:requests_total::'', v_value = 0\<rparr>,
                     \<lparr>v_params = counter_params, v_file = 1, v_key = ''requests_total:requests_total::'', v_value = 0\<rparr>],
       pid = 200\<rparr>)"
  by (simp add: after_inc_state) (simp add: eval_defs)

lemma forked_state:
  "forked =
      \<lparr>environ = current_env, warnings = 0,
       disk = (\<lambda>_. Map.empty)(''/tmp/metrics/counter_100.db'' := [''requests_total:requests_total::'' \<mapsto> 5]),
       broken = {},
       heap = [\<lparr>filename = ''/tmp/metrics/counter_100.db'', closed = True\<rparr>,
               \<lparr>filename = ''/tmp/metrics/counter_200.db'', closed = False\<rparr>],
       files = [(Some ''counter'', 1)],
       all_values = [\<lparr>v_params = counter_params, v_file = 1, v_key = ''requests_total:requests_total::'', v_value = 0\<rparr>,
                     \<lparr>v_params = counter_params, v_file = 1, v_key = ''requests_total:requests_total::'', v_value = 0\<rparr>],
       pid = 200\<rparr>"
  by (simp add: forked_def check_forked)

lemma consistent_after_inc: "consistent example_key after_inc"
proof -
  have "exec example_key (100, Inc 0 5) two_counters = (None, after_inc)"
    by (simp add: outcome_def after_inc_def after_inc_eq)
  with reachable_consistent [OF reachable_two_counters] show ?thesis
    by (rule exec_consistent)
qed

text \<open>
  Claim C2. From a consistent state (every store of \<open>files\<close> open and named with the
  cached identity, every instance attached to the store of its prefix):
  \<^item> every call that returns leaves a consistent state whose cached identity is the
    probe;
  \<^item> \<open>inc\<close>, \<open>set\<close> and \<open>get\<close> first run the identity check: if it raises they raise
    with its state, and otherwise they are the same call, with the identity now
    unchanged, on the state the check leaves;
  \<^item> the same holds for a construction (after the legacy directory is copied), and
    the check leaves the length of \<open>values\<close> as it was: the new instance is appended
    behind the instances the check has dealt with;
  \<^item> when the check returns, the cached identity is the probe; if the probe was the
    cached identity nothing has changed; if not, every store that \<open>files\<close> held is
    closed, \<open>files\<close> holds only stores opened since, each open and named with the new
    identity, and every registered instance has its parameters, is attached to the
    store of its prefix in \<open>files\<close>, and caches the float that this store reads
    under its key.
\<close>

theorem identity_check_first:
  assumes "consistent mk w"
  shows "(exec mk (a, c) w = (None, w') \<longrightarrow> consistent mk w' \<and> pid w' = a) \<and>
         (self < length (all_values w) \<longrightarrow>
            (case check_for_pid_change mk a w of
               (Inl e, w1) \<Rightarrow>
                 inc mk a self x w = (Inl e, w1) \<and> set_value mk a self x w = (Inl e, w1) \<and>
                 get mk a self w = (Inl e, w1)
             | (Inr _, w1) \<Rightarrow>
                 inc mk a self x w = inc mk (pid w1) self x w1 \<and>
                 set_value mk a self x w = set_value mk (pid w1) self x w1 \<and>
                 get mk a self w = get mk (pid w1) self w1)) \<and>
         (case check_for_pid_change mk a (copy_legacy_dir w) of
            (Inl e, w1) \<Rightarrow> init mk a p w = (Inl e, w1)
          | (Inr _, w1) \<Rightarrow>
              init mk a p w = init mk (pid w1) p w1 \<and>
              length (all_values w1) = length (all_values w) \<and>
              (\<forall>r w''. init mk a p w = (Inr r, w'') \<longrightarrow>
                 r = length (all_values w1) \<and> all_values w'' = all_values w1 @ [all_values w'' ! r])) \<and>
         (check_for_pid_change mk a w = (Inr (), w2) \<longrightarrow>
            pid w2 = a \<and> consistent mk w2 \<and>
            (pid w = a \<longrightarrow> w2 = w) \<and>
            (pid w \<noteq> a \<longrightarrow>
               (\<forall>f \<in> set (files w). closed (heap w2 ! snd f)) \<and>
               fresh_from (length (heap w)) w2 \<and> files_ok w2 \<and>
               list_all2 (reattached mk w2) (all_values w) (all_values w2)))"
proof -
  have p1: "exec mk (a, c) w = (None, w') \<longrightarrow> consistent mk w' \<and> pid w' = a"
    using assms by (auto intro: exec_consistent exec_pid)
  have p2: "self < length (all_values w) \<longrightarrow>
            (case check_for_pid_change mk a w of
               (Inl e, w1) \<Rightarrow>
                 inc mk a self x w = (Inl e, w1) \<and> set_value mk a self x w = (Inl e, w1) \<and>
                 get mk a self w = (Inl e, w1)
             | (Inr _, w1) \<Rightarrow>
                 inc mk a self x w = inc mk (pid w1) self x w1 \<and>
                 set_value mk a self x w = set_value mk (pid w1) self x w1 \<and>
                 get mk a self w = get mk (pid w1) self w1)"
  proof
    assume l: "self < length (all_values w)"
    obtain r1 w1 where c1: "check_for_pid_change mk a w = (r1, w1)" by (metis prod.exhaust)
    show "case check_for_pid_change mk a w of
               (Inl e, w1) \<Rightarrow>
                 inc mk a self x w = (Inl e, w1) \<and> set_value mk a self x w = (Inl e, w1) \<and>
                 get mk a self w = (Inl e, w1)
             | (Inr _, w1) \<Rightarrow>
                 inc mk a self x w = inc mk (pid w1) self x w1 \<and>
                 set_value mk a self x w = set_value mk (pid w1) self x w1 \<and>
                 get mk a self w = get mk (pid w1) self w1"
    proof (cases r1)
      case (Inl e)
      then show ?thesis using c1 l by (simp add: inc_def set_value_def get_def)
    next
      case (Inr u)
      then show ?thesis using c1 inc_after_check [OF l c1 [unfolded Inr]] by simp
    qed
  qed
  have p3: "case check_for_pid_change mk a (copy_legacy_dir w) of
            (Inl e, w1) \<Rightarrow> init mk a p w = (Inl e, w1)
          | (Inr _, w1) \<Rightarrow>
              init mk a p w = init mk (pid w1) p w1 \<and>
              length (all_values w1) = length (all_values w) \<and>
              (\<forall>r w''. init mk a p w = (Inr r, w'') \<longrightarrow>
                 r = length (all_values w1) \<and> all_values w'' = all_values w1 @ [all_values w'' ! r])"
  proof -
    obtain r1 w1 where c1: "check_for_pid_change mk a (copy_legacy_dir w) = (r1, w1)" by (metis prod.exhaust)
    have len: "length (all_values (copy_legacy_dir w)) = length (all_values w)"
      by (simp add: copy_legacy_dir_def split: option.splits)
    show ?thesis
    proof (cases r1)
      case (Inl e)
      then show ?thesis using c1 by (simp add: init_def)
    next
      case (Inr u)
      have "length (all_values w1) = length (all_values w)"
        using check_frame [OF c1] len by simp
      then show ?thesis
        using c1 Inr init_after_check [OF c1 [unfolded Inr]] init_appends [OF c1 [unfolded Inr]]
        by simp
    qed
  qed
  have p4: "check_for_pid_change mk a w = (Inr (), w2) \<longrightarrow>
            pid w2 = a \<and> consistent mk w2 \<and>
            (pid w = a \<longrightarrow> w2 = w) \<and>
            (pid w \<noteq> a \<longrightarrow>
               (\<forall>f \<in> set (files w). closed (heap w2 ! snd f)) \<and>
               fresh_from (length (heap w)) w2 \<and> files_ok w2 \<and>
               list_all2 (reattached mk w2) (all_values w) (all_values w2))"
  proof
    assume c: "check_for_pid_change mk a w = (Inr (), w2)"
    have a1: "pid w2 = a" using check_frame [OF c] by simp
    have a2: "consistent mk w2" using assms c by (rule check_consistent)
    have a3: "pid w = a \<longrightarrow> w2 = w" using c by auto
    have a4: "pid w \<noteq> a \<longrightarrow>
               (\<forall>f \<in> set (files w). closed (heap w2 ! snd f)) \<and>
               fresh_from (length (heap w)) w2 \<and> files_ok w2 \<and>
               list_all2 (reattached mk w2) (all_values w) (all_values w2)"
    proof
      assume ne: "pid w \<noteq> a"
      have "\<forall>f \<in> set (files w). snd f < length (heap w)"
        using assms by (simp add: consistent_def files_ok_def store_ok_def)
      then show "(\<forall>f \<in> set (files w). closed (heap w2 ! snd f)) \<and>
               fresh_from (length (heap w)) w2 \<and> files_ok w2 \<and>
               list_all2 (reattached mk w2) (all_values w) (all_values w2)"
        using check_resync [OF ne c] by simp
    qed
    show "pid w2 = a \<and> consistent mk w2 \<and>
            (pid w = a \<longrightarrow> w2 = w) \<and>
            (pid w \<noteq> a \<longrightarrow>
               (\<forall>f \<in> set (files w). closed (heap w2 ! snd f)) \<and>
               fresh_from (length (heap w)) w2 \<and> files_ok w2 \<and>
               list_all2 (reattached mk w2) (all_values w) (all_values w2))"
      using a1 a2 a3 a4 by blast
  qed
  show ?thesis using p1 p2 p3 p4 by blast
qed

theorem identity_check_first_witness:
  "check_for_pid_change example_key 200 after_inc = (Inr (), forked) \<and>
   pid after_inc = 100 \<and> pid forked = 200 \<and> consistent example_key forked \<and>
   files after_inc = [(Some ''counter'', 0)] \<and> closed (heap forked ! 0) \<and>
   files forked = [(Some ''counter'', 1)] \<and>
   heap forked ! 1 = \<lparr>filename = ''/tmp/metrics/counter_200.db'', closed = False\<rparr> \<and>
   map v_value (all_values after_inc) = [5, 0] \<and> map v_value (all_values forked) = [0, 0] \<and>
   get example_key 200 0 after_inc = (Inr 0, forked) \<and>
   length (all_values (snd (init example_key 200 counter_params after_inc))) = 3"
proof -
  have c: "check_for_pid_change example_key 200 after_inc = (Inr (), forked)"
    by (simp add: forked_def check_forked)
  have cl: "copy_legacy_dir after_inc = after_inc"
    by (simp add: after_inc_state copy_legacy_dir_def current_env_def)
  have l: "0 < length (all_values after_inc)" by (simp add: after_inc_state)
  have f: "files after_inc = [(Some ''counter'', 0)]" "pid after_inc = 100"
    "map v_value (all_values after_inc) = [5, 0]"
    by (simp_all add: after_inc_state)
  have g: "files forked = [(Some ''counter'', 1)]"
    "heap forked ! 1 = \<lparr>filename = ''/tmp/metrics/counter_200.db'', closed = False\<rparr>"
    "map v_value (all_values forked) = [0, 0]"
    by (simp_all add: forked_state)
  have g0: "get example_key (pid forked) 0 forked = (Inr 0, forked)"
    by (simp add: forked_state get_def check_for_pid_change_def)
  have i3: "length (all_values (snd (init example_key 200 counter_params forked))) = 3"
    by (simp add: forked_state eval_defs str_int_200)
  note t = identity_check_first [OF consistent_after_inc, of 200 "Get 0" forked 0 5 counter_params forked]
  have p200: "pid forked = 200" "consistent example_key forked" "closed (heap forked ! 0)"
    using t c f by simp_all
  have "get example_key 200 0 after_inc = get example_key (pid forked) 0 forked"
    using t c l by simp
  moreover have "init example_key 200 counter_params after_inc = init example_key (pid forked) counter_params forked"
    using t c cl by simp
  ultimately show ?thesis using c f g g0 i3 p200 by simp
qed

subsection \<open>The legacy spelling of the directory\<close>

lemma store_for_warnings:
  "store_for k (w\<lparr>warnings := n\<rparr>) = (case store_for k w of (r, w') \<Rightarrow> (r, w'\<lparr>warnings := n\<rparr>))"
  by (simp add: store_for_def MmapedDict_open_def split: option.splits)

lemma read_value_warnings [simp]: "read_value h k (w\<lparr>warnings := n\<rparr>) = read_value h k w"
  by (simp add: read_value_def Let_def)

lemma reset_warnings:
  "reset mk v (w\<lparr>warnings := n\<rparr>) = (case reset mk v w of (r, v', w') \<Rightarrow> (r, v', w'\<lparr>warnings := n\<rparr>))"
  by (simp add: reset_def store_for_warnings Let_def split: prod.splits sum.splits)

lemma reset_each_warnings:
  "reset_each mk vs (w\<lparr>warnings := n\<rparr>) =
     (case reset_each mk vs w of (r, vs', w') \<Rightarrow> (r, vs', w'\<lparr>warnings := n\<rparr>))"
proof (induction vs arbitrary: w)
  case Nil
  show ?case by simp
next
  case (Cons v vs)
  show ?case
    by (simp add: reset_warnings Cons.IH split: prod.splits sum.splits)
qed

lemma check_warnings:
  "check_for_pid_change mk a (w\<lparr>warnings := n\<rparr>) =
     (case check_for_pid_change mk a w of (r, w') \<Rightarrow> (r, w'\<lparr>warnings := n\<rparr>))"
proof -
  have "closing (w\<lparr>warnings := n, pid := a\<rparr>) = (closing (w\<lparr>pid := a\<rparr>))\<lparr>warnings := n\<rparr>"
    by (simp add: closing_def)
  then show ?thesis
    by (cases "pid w = a")
       (simp_all add: check_changed reset_each_warnings check_same_eq split: prod.splits)
qed

lemma write_value_warnings:
  "write_value h k x (w\<lparr>warnings := n\<rparr>) =
     (case write_value h k x w of (r, w') \<Rightarrow> (r, w'\<lparr>warnings := n\<rparr>))"
  by (simp add: write_value_def Let_def)

lemma store_back_warnings:
  "store_back self y (w\<lparr>warnings := n\<rparr>) =
     (case store_back self y w of (r, w') \<Rightarrow> (r, w'\<lparr>warnings := n\<rparr>))"
  by (simp add: store_back_def write_value_def Let_def)

lemma copy_legacy_dir_set:
  "environ w ''PROMETHEUS_MULTIPROC_DIR'' = Some d \<Longrightarrow> copy_legacy_dir w = w"
  by (simp add: copy_legacy_dir_def split: option.splits)

lemma init_settled_warnings:
  assumes "environ w ''PROMETHEUS_MULTIPROC_DIR'' = Some d"
  shows "init mk a p (w\<lparr>warnings := n\<rparr>) =
     (case init mk a p w of (r, w') \<Rightarrow> (r, w'\<lparr>warnings := n\<rparr>))"
proof -
  have 1: "copy_legacy_dir (w\<lparr>warnings := n\<rparr>) = w\<lparr>warnings := n\<rparr>"
    using assms by (simp add: copy_legacy_dir_set)
  have 2: "copy_legacy_dir w = w" using assms by (rule copy_legacy_dir_set)
  show ?thesis
    unfolding init_def 1 2
    by (simp add: check_warnings reset_warnings split: prod.splits sum.splits)
qed

lemma init_legacy:
  assumes "environ w ''prometheus_multiproc_dir'' = Some d"
    and "environ w ''PROMETHEUS_MULTIPROC_DIR'' = None"
  shows "init mk a p w =
     (case init mk a p (w\<lparr>environ := (environ w)(''PROMETHEUS_MULTIPROC_DIR'' \<mapsto> d)\<rparr>) of
        (r, w') \<Rightarrow> (r, w'\<lparr>warnings := warnings w + 1\<rparr>))"
proof -
  let ?we = "w\<lparr>environ := (environ w)(''PROMETHEUS_MULTIPROC_DIR'' \<mapsto> d)\<rparr>"
  have 1: "copy_legacy_dir w = ?we\<lparr>warnings := warnings w + 1\<rparr>"
    using assms by (simp add: copy_legacy_dir_def)
  have 2: "copy_legacy_dir ?we = ?we" by (rule copy_legacy_dir_set [of _ d]) simp
  show ?thesis
    unfolding init_def 1 2
    by (simp add: check_warnings reset_warnings split: prod.splits sum.splits)
qed

lemma init_environ:
  "environ (snd (init mk a p w)) = environ (copy_legacy_dir w) \<and>
   warnings (snd (init mk a p w)) = warnings (copy_legacy_dir w)"
proof -
  obtain r1 w1 where c: "check_for_pid_change mk a (copy_legacy_dir w) = (r1, w1)" by (metis prod.exhaust)
  obtain r2 v w2 where e: "reset mk (blank p) w1 = (r2, v, w2)" by (metis prod_cases3)
  have "environ w2 = environ w1 \<and> warnings w2 = warnings w1"
    using reset_grows [OF e] by (simp add: grows_def)
  then show ?thesis
    using c e check_frame [OF c] by (cases r1; cases r2) (simp_all add: init_def)
qed

lemma exec_environ:
  "environ (snd (exec mk c w)) = (if constructs c then environ (copy_legacy_dir w) else environ w)"
proof -
  obtain a o' where c: "c = (a, o')" by (cases c)
  have k: "\<And>r :: unit result. snd (outcome r) = snd r"
    by (auto simp: outcome_def split: prod.splits sum.splits)
  have k': "\<And>r :: nat result. snd (outcome r) = snd r"
    by (auto simp: outcome_def split: prod.splits sum.splits)
  have k'': "\<And>r :: pyfloat result. snd (outcome r) = snd r"
    by (auto simp: outcome_def split: prod.splits sum.splits)
  show ?thesis
  proof (cases o')
    case (New p)
    then show ?thesis using c init_environ [of mk a p w] by (simp add: constructs_def k')
  next
    case (Inc self x)
    obtain r w' where i: "inc mk a self x w = (r, w')" by (metis prod.exhaust)
    obtain r1 w1 where c1: "check_for_pid_change mk a w = (r1, w1)" by (metis prod.exhaust)
    have "environ w' = environ w"
    proof (cases "self < length (all_values w)")
      case False
      then show ?thesis using i by (simp add: inc_def)
    next
      case True
      show ?thesis
      proof (cases r1)
        case (Inl e)
        then show ?thesis using i c1 True check_frame [OF c1] by (simp add: inc_store_back)
      next
        case (Inr u)
        then obtain y where "store_back self y w1 = (r, w')"
          using i c1 True by (auto simp: inc_store_back)
        from store_back_frame [OF this] check_frame [OF c1] show ?thesis by simp
      qed
    qed
    then show ?thesis using c Inc i by (simp add: constructs_def k)
  next
    case (Set self x)
    obtain r w' where i: "set_value mk a self x w = (r, w')" by (metis prod.exhaust)
    obtain r1 w1 where c1: "check_for_pid_change mk a w = (r1, w1)" by (metis prod.exhaust)
    have "environ w' = environ w"
    proof (cases "self < length (all_values w)")
      case False
      then show ?thesis using i by (simp add: set_value_def)
    next
      case True
      show ?thesis
      proof (cases r1)
        case (Inl e)
        then show ?thesis using i c1 True check_frame [OF c1] by (simp add: set_store_back)
      next
        case (Inr u)
        then obtain y where "store_back self y w1 = (r, w')"
          using i c1 True by (auto simp: set_store_back)
        from store_back_frame [OF this] check_frame [OF c1] show ?thesis by simp
      qed
    qed
    then show ?thesis using c Set i by (simp add: constructs_def k)
  next
    case (Get self)
    obtain r1 w1 where c1: "check_for_pid_change mk a w = (r1, w1)" by (metis prod.exhaust)
    have "environ (snd (get mk a self w)) = environ w"
      using c1 check_frame [OF c1] by (cases r1) (simp_all add: get_def)
    then show ?thesis using c Get by (simp add: constructs_def k'')
  qed
qed

lemma exec_warnings:
  assumes "environ w ''PROMETHEUS_MULTIPROC_DIR'' = Some d"
  shows "exec mk c (w\<lparr>warnings := n\<rparr>) = (case exec mk c w of (r, w') \<Rightarrow> (r, w'\<lparr>warnings := n\<rparr>))"
proof -
  obtain a o' where c: "c = (a, o')" by (cases c)
  show ?thesis
  proof (cases o')
    case (New p)
    then show ?thesis using c init_settled_warnings [OF assms, of mk a p n]
      by (simp add: outcome_def split: prod.splits sum.splits)
  next
    case (Inc self x)
    then show ?thesis using c
      by (simp add: outcome_def inc_store_back check_warnings store_back_warnings
               split: prod.splits sum.splits)
  next
    case (Set self x)
    then show ?thesis using c
      by (simp add: outcome_def set_store_back check_warnings store_back_warnings
               split: prod.splits sum.splits)
  next
    case (Get self)
    then show ?thesis using c
      by (simp add: outcome_def get_def check_warnings split: prod.splits sum.splits)
  qed
qed

lemma run_settled:
  assumes "environ w ''PROMETHEUS_MULTIPROC_DIR'' = Some d"
  shows "run mk cs (w\<lparr>warnings := n\<rparr>) = (run mk cs w)\<lparr>warnings := n\<rparr> \<and>
         environ (run mk cs w) = environ w"
  using assms
proof (induction cs arbitrary: w)
  case Nil
  show ?case by simp
next
  case (Cons c cs)
  have e: "environ (snd (exec mk c w)) = environ w"
    using exec_environ [of mk c w] copy_legacy_dir_set [OF Cons.prems] by simp
  then have e': "environ (snd (exec mk c w)) ''PROMETHEUS_MULTIPROC_DIR'' = Some d"
    using Cons.prems by simp
  have "snd (exec mk c (w\<lparr>warnings := n\<rparr>)) = (snd (exec mk c w))\<lparr>warnings := n\<rparr>"
    using exec_warnings [OF Cons.prems, of mk c n] by (simp split: prod.splits)
  then show ?case using Cons.IH [OF e'] e by simp
qed


lemma exec_no_instance:
  assumes "all_values w = []" "\<not> constructs c"
  shows "snd (exec mk c w) = w"
proof -
  obtain a o' where c: "c = (a, o')" by (cases c)
  show ?thesis using assms c
    by (cases o') (simp_all add: constructs_def outcome_def inc_def set_value_def get_def)
qed

lemma run_legacy:
  assumes "environ w ''prometheus_multiproc_dir'' = Some d"
    and "environ w ''PROMETHEUS_MULTIPROC_DIR'' = None"
    and "all_values w = []"
  shows "run mk cs w =
     (if \<exists>c \<in> set cs. constructs c
      then (run mk cs (w\<lparr>environ := (environ w)(''PROMETHEUS_MULTIPROC_DIR'' \<mapsto> d)\<rparr>))
             \<lparr>warnings := warnings w + 1\<rparr>
      else w)"
proof (induction cs)
  case Nil
  show ?case by simp
next
  case (Cons c cs)
  let ?we = "w\<lparr>environ := (environ w)(''PROMETHEUS_MULTIPROC_DIR'' \<mapsto> d)\<rparr>"
  show ?case
  proof (cases "constructs c")
    case False
    have "snd (exec mk c w) = w" using assms(3) False by (rule exec_no_instance)
    moreover have "snd (exec mk c ?we) = ?we"
      using assms(3) False by (intro exec_no_instance) simp_all
    ultimately show ?thesis using Cons.IH False by simp
  next
    case True
    then obtain a p where c: "c = (a, New p)"
      by (cases c; cases "snd c") (auto simp: constructs_def)
    let ?w1 = "snd (init mk a p ?we)"
    have k: "\<And>r :: nat result. snd (outcome r) = snd r"
      by (auto simp: outcome_def split: prod.splits sum.splits)
    have 1: "snd (exec mk c w) = ?w1\<lparr>warnings := warnings w + 1\<rparr>"
      using init_legacy [OF assms(1,2), of mk a p] c by (simp add: k split: prod.splits)
    have 2: "snd (exec mk c ?we) = ?w1" using c by (simp add: k)
    have "environ ?w1 = environ (copy_legacy_dir ?we)" using init_environ [of mk a p ?we] by simp
    moreover have "copy_legacy_dir ?we = ?we" by (rule copy_legacy_dir_set [of _ d]) simp
    ultimately have "environ ?w1 ''PROMETHEUS_MULTIPROC_DIR'' = Some d" by simp
    from run_settled [OF this, of mk cs "warnings w + 1"]
    have "run mk cs (?w1\<lparr>warnings := warnings w + 1\<rparr>) = (run mk cs ?w1)\<lparr>warnings := warnings w + 1\<rparr>"
      by simp
    then show ?thesis using True 1 2 by simp
  qed
qed

text \<open>
  Claim C8. Let the environment have the directory \<open>d\<close> under the legacy name only, in
  a state without instances, and let \<open>we\<close> be that state with \<open>d\<close> under the current
  name as well. Then
  \<^item> a construction is not rejected for the spelling: it returns or raises exactly as it
    does from \<open>we\<close>, and leaves the state it leaves from \<open>we\<close> but for one more notice;
  \<^item> it leaves \<open>d\<close> under the current name, also when it raises;
  \<^item> any sequence of calls leaves the state it leaves from \<open>we\<close> but for one more
    notice if one of the calls is a construction, and changes nothing otherwise, and
    from \<open>we\<close> no notice is given; so the notice is given once if an instance is ever
    constructed, however many follow;
  \<^item> whenever an instance exists, \<open>d\<close> is under the current name and the notice has
    been given once.
\<close>

theorem legacy_dir_accepted:
  assumes "environ w ''prometheus_multiproc_dir'' = Some d"
    and "environ w ''PROMETHEUS_MULTIPROC_DIR'' = None"
    and "all_values w = []"
    and "we = w\<lparr>environ := (environ w)(''PROMETHEUS_MULTIPROC_DIR'' \<mapsto> d)\<rparr>"
  shows "init mk a p w = (case init mk a p we of (r, w') \<Rightarrow> (r, w'\<lparr>warnings := warnings w + 1\<rparr>)) \<and>
         environ (snd (init mk a p w)) ''PROMETHEUS_MULTIPROC_DIR'' = Some d \<and>
         run mk cs w =
           (if \<exists>c \<in> set cs. constructs c then (run mk cs we)\<lparr>warnings := warnings w + 1\<rparr> else w) \<and>
         warnings (run mk cs we) = warnings w \<and>
         warnings (run mk cs w) = warnings w + (if \<exists>c \<in> set cs. constructs c then 1 else 0) \<and>
         (all_values (run mk cs w) \<noteq> [] \<longrightarrow>
            environ (run mk cs w) ''PROMETHEUS_MULTIPROC_DIR'' = Some d \<and>
            warnings (run mk cs w) = warnings w + 1)"
proof -
  have e: "environ we ''PROMETHEUS_MULTIPROC_DIR'' = Some d" using assms(4) by simp
  have a: "init mk a p w = (case init mk a p we of (r, w') \<Rightarrow> (r, w'\<lparr>warnings := warnings w + 1\<rparr>))"
    unfolding assms(4) using assms(1,2) by (rule init_legacy)
  have "environ (snd (init mk a p w)) = environ (copy_legacy_dir w)"
    using init_environ [of mk a p w] by simp
  then have b: "environ (snd (init mk a p w)) ''PROMETHEUS_MULTIPROC_DIR'' = Some d"
    using assms(1,2) by (simp add: copy_legacy_dir_def)
  have c: "run mk cs w =
           (if \<exists>c \<in> set cs. constructs c then (run mk cs we)\<lparr>warnings := warnings w + 1\<rparr> else w)"
    unfolding assms(4) using assms(1-3) by (rule run_legacy)
  have s: "run mk cs (we\<lparr>warnings := warnings we\<rparr>) = (run mk cs we)\<lparr>warnings := warnings we\<rparr>"
    "environ (run mk cs we) = environ we"
    using run_settled [OF e, of mk cs "warnings we"] by simp_all
  have "warnings (run mk cs we) = warnings we"
  proof -
    have "we\<lparr>warnings := warnings we\<rparr> = we" by simp
    then have "run mk cs we = (run mk cs we)\<lparr>warnings := warnings we\<rparr>" using s(1) by simp
    then have "warnings (run mk cs we) = warnings ((run mk cs we)\<lparr>warnings := warnings we\<rparr>)" by simp
    then show ?thesis by simp
  qed
  then have d: "warnings (run mk cs we) = warnings w" using assms(4) by simp
  have f: "warnings (run mk cs w) = warnings w + (if \<exists>c \<in> set cs. constructs c then 1 else 0)"
    using c by simp
  have g: "all_values (run mk cs w) \<noteq> [] \<longrightarrow>
            environ (run mk cs w) ''PROMETHEUS_MULTIPROC_DIR'' = Some d \<and>
            warnings (run mk cs w) = warnings w + 1"
  proof
    assume n: "all_values (run mk cs w) \<noteq> []"
    have ex: "\<exists>c \<in> set cs. constructs c"
    proof (rule ccontr)
      assume "\<not> (\<exists>c \<in> set cs. constructs c)"
      then have "run mk cs w = w" using c by simp
      then show False using n assms(3) by simp
    qed
    then have "run mk cs w = (run mk cs we)\<lparr>warnings := warnings w + 1\<rparr>" using c by simp
    then have "environ (run mk cs w) = environ (run mk cs we)" by simp
    then show "environ (run mk cs w) ''PROMETHEUS_MULTIPROC_DIR'' = Some d \<and>
            warnings (run mk cs w) = warnings w + 1"
      using s(2) e f ex by simp
  qed
  show ?thesis using a b c d f g by blast
qed

theorem legacy_dir_accepted_witness:
  "fst (init example_key 100 counter_params legacy_started) = Inr 0 \<and>
   environ (snd (init example_key 100 counter_params legacy_started)) ''PROMETHEUS_MULTIPROC_DIR'' =
     Some ''/tmp/metrics'' \<and>
   warnings (run example_key [(100, Inc 0 1), (100, New counter_params), (100, Inc 0 1),
                              (100, New counter_params), (100, Get 1)] legacy_started) = 1 \<and>
   warnings (run example_key [(100, Inc 0 1), (100, Get 0)] legacy_started) = 0"
proof -
  have h: "environ legacy_started ''prometheus_multiproc_dir'' = Some ''/tmp/metrics''"
    "environ legacy_started ''PROMETHEUS_MULTIPROC_DIR'' = None"
    "all_values legacy_started = []" "warnings legacy_started = 0"
    by (simp_all add: legacy_started_def MultiProcessValue_def process_with_def legacy_env_def)
  have i: "fst (init example_key 100 counter_params legacy_started) = Inr 0"
    by (simp add: legacy_started_def eval_defs)
  have c: "\<exists>c \<in> set [(100, Inc 0 1), (100, New counter_params), (100, Inc 0 1),
                       (100, New counter_params), (100::int, Get 1)]. constructs c"
    "\<not> (\<exists>c \<in> set [(100::int, Inc 0 1), (100, Get 0)]. constructs c)"
    by (simp_all add: constructs_def)
  from legacy_dir_accepted [OF h(1-3) refl, of example_key 100 counter_params
        "[(100, Inc 0 1), (100, New counter_params), (100, Inc 0 1), (100, New counter_params), (100, Get 1)]"]
    legacy_dir_accepted [OF h(1-3) refl, of example_key 100 counter_params "[(100, Inc 0 1), (100, Get 0)]"]
  show ?thesis using i c h(4) by simp
qed

subsection \<open>Increments of a \<open>MutexValue\<close>\<close>

lemma sum_list_map_update:
  fixes f :: "'a \<Rightarrow> real"
  shows "t < length xs \<Longrightarrow> sum_list (map f (xs[t := y])) = sum_list (map f xs) - f (xs ! t) + f y"
proof (induction xs arbitrary: t)
  case Nil
  then show ?case by simp
next
  case (Cons x xs)
  then show ?case by (cases t) simp_all
qed

lemma fold_m_inc: "m_value (fold m_inc as self) = m_value self + sum_list as"
  by (induction as arbitrary: self) (simp_all add: m_inc_def)

lemma sum_list_zero:
  fixes f :: "'a \<Rightarrow> real"
  shows "\<forall>x \<in> set xs. f x = 0 \<Longrightarrow> sum_list (map f xs) = 0"
  by (induction xs) simp_all

lemma exclusive_spawn: "exclusive (spawn programs) (sum_list (concat programs))"
proof -
  have "sum_list (map remaining (map (Pair Idle) programs)) = sum_list (concat programs)"
    by (induction programs) simp_all
  then show ?thesis
    by (auto simp: exclusive_def spawn_def MutexValue_init_def busy_def)
qed


lemma thread_step_Some:
  assumes "thread_step th self lock = Some (th', self', lock')"
  shows "(\<exists>a as. th = (Idle, a # as) \<and> \<not> lock \<and> th' = (Entered, a # as) \<and> self' = self \<and> lock') \<or>
         (\<exists>a as. th = (Entered, a # as) \<and> th' = (Computed (m_value self + a), a # as) \<and>
                 self' = self \<and> lock' = lock) \<or>
         (\<exists>x a as. th = (Computed x, a # as) \<and> th' = (Written, a # as) \<and>
                 self' = self\<lparr>m_value := x\<rparr> \<and> lock' = lock) \<or>
         (\<exists>a as. th = (Written, a # as) \<and> th' = (Idle, as) \<and> self' = self \<and> \<not> lock')"
proof -
  obtain p as where th: "th = (p, as)" by (cases th)
  show ?thesis
  proof (cases as)
    case Nil
    then show ?thesis using assms th by simp
  next
    case (Cons a as')
    show ?thesis
    proof (cases p)
      case Idle
      then show ?thesis using assms th Cons by (auto split: if_splits)
    next
      case Entered
      then show ?thesis using assms th Cons by auto
    next
      case (Computed x)
      then show ?thesis using assms th Cons by auto
    next
      case Written
      then show ?thesis using assms th Cons by auto
    qed
  qed
qed

lemma fire_Some:
  assumes "fire t s = Some s'"
  obtains th self lock where "t < length (threads s)"
    "thread_step (threads s ! t) (target s) (locked s) = Some (th, self, lock)"
    "target s' = self" "locked s' = lock" "threads s' = (threads s)[t := th]"
  using assms by (auto simp: fire_def split: if_splits option.splits)

lemma others_idle:
  assumes "exclusive s goal" "t < length (threads s)" "busy (threads s ! t)"
    and "t' < length (threads s)" "t' \<noteq> t"
  shows "fst (threads s ! t') = Idle"
  using assms unfolding exclusive_def busy_def by blast

lemma all_idle:
  assumes "exclusive s goal" "\<not> locked s" "t' < length (threads s)"
  shows "fst (threads s ! t') = Idle"
  using assms unfolding exclusive_def busy_def by (metis nth_mem)

lemma exclusive_intro:
  assumes "t < length ths"
    and "\<forall>t' < length ths. t' \<noteq> t \<longrightarrow> fst (ths ! t') = Idle"
    and "thread_ok self th"
    and "lock \<longleftrightarrow> busy th"
    and "m_value self + sum_list (map remaining (ths[t := th])) = goal"
  shows "exclusive \<lparr>target = self, locked = lock, threads = ths[t := th]\<rparr> goal"
proof -
  have idle: "\<And>t'. t' < length ths \<Longrightarrow> t' \<noteq> t \<Longrightarrow> \<not> busy (ths[t := th] ! t') \<and> thread_ok self (ths[t := th] ! t')"
  proof -
    fix t' assume a: "t' < length ths" "t' \<noteq> t"
    then have "fst (ths ! t') = Idle" using assms(2) by simp
    then obtain as where "ths ! t' = (Idle, as)" by (cases "ths ! t'") simp
    then show "\<not> busy (ths[t := th] ! t') \<and> thread_ok self (ths[t := th] ! t')"
      using a by (simp add: busy_def)
  qed
  have here: "ths[t := th] ! t = th" using assms(1) by simp
  have ok: "\<forall>x \<in> set (ths[t := th]). thread_ok self x"
  proof
    fix x assume "x \<in> set (ths[t := th])"
    then obtain i where i: "i < length ths" "x = ths[t := th] ! i"
      by (auto simp: in_set_conv_nth)
    show "thread_ok self x"
      using i idle [of i] here assms(3) by (cases "i = t") simp_all
  qed
  have lk: "lock \<longleftrightarrow> (\<exists>x \<in> set (ths[t := th]). busy x)"
  proof
    assume lock
    then have "busy (ths[t := th] ! t)" using assms(4) here by simp
    moreover have "ths[t := th] ! t \<in> set (ths[t := th])"
      by (rule nth_mem) (simp add: assms(1))
    ultimately show "\<exists>x \<in> set (ths[t := th]). busy x" by blast
  next
    assume "\<exists>x \<in> set (ths[t := th]). busy x"
    then obtain i where i: "i < length ths" "busy (ths[t := th] ! i)"
      by (auto simp: in_set_conv_nth)
    then have "i = t" using idle [of i] by blast
    then show lock using i here assms(4) by simp
  qed
  have un: "\<forall>i < length (ths[t := th]). \<forall>j < length (ths[t := th]).
        busy (ths[t := th] ! i) \<and> busy (ths[t := th] ! j) \<longrightarrow> i = j"
  proof (intro allI impI)
    fix i j assume "i < length (ths[t := th])" "j < length (ths[t := th])"
      and b: "busy (ths[t := th] ! i) \<and> busy (ths[t := th] ! j)"
    have "i = t"
    proof (rule ccontr)
      assume "i \<noteq> t"
      from idle [OF _ this] b \<open>i < length (ths[t := th])\<close> show False by simp
    qed
    moreover have "j = t"
    proof (rule ccontr)
      assume "j \<noteq> t"
      from idle [OF _ this] b \<open>j < length (ths[t := th])\<close> show False by simp
    qed
    ultimately show "i = j" by simp
  qed
  show ?thesis using ok lk un assms(5) by (simp add: exclusive_def)
qed

lemma fire_exclusive:
  assumes "exclusive s goal" "fire t s = Some s'"
  shows "exclusive s' goal"
proof -
  from assms(2) obtain th self lock where t: "t < length (threads s)"
    and st: "thread_step (threads s ! t) (target s) (locked s) = Some (th, self, lock)"
    and s': "target s' = self" "locked s' = lock" "threads s' = (threads s)[t := th]"
    by (rule fire_Some)
  have eq: "s' = \<lparr>target = self, locked = lock, threads = (threads s)[t := th]\<rparr>"
    using s' by simp
  have tot: "m_value (target s) + sum_list (map remaining (threads s)) = goal"
    using assms(1) by (simp add: exclusive_def)
  have upd: "sum_list (map remaining ((threads s)[t := th])) =
             sum_list (map remaining (threads s)) - remaining (threads s ! t) + remaining th"
    using t by (rule sum_list_map_update)
  have ok_t: "thread_ok (target s) (threads s ! t)"
    using assms(1) t by (simp add: exclusive_def)
  from thread_step_Some [OF st]
  consider (acquires) a as where "threads s ! t = (Idle, a # as)" "\<not> locked s" "th = (Entered, a # as)"
      "self = target s" "lock"
    | (computes) a as where "threads s ! t = (Entered, a # as)"
      "th = (Computed (m_value (target s) + a), a # as)" "self = target s" "lock = locked s"
    | (stores) x a as where "threads s ! t = (Computed x, a # as)" "th = (Written, a # as)"
      "self = (target s)\<lparr>m_value := x\<rparr>" "lock = locked s"
    | (releases) a as where "threads s ! t = (Written, a # as)" "th = (Idle, as)" "self = target s" "\<not> lock"
    by blast
  then show ?thesis
  proof cases
    case (acquires a as)
    have "\<forall>t' < length (threads s). t' \<noteq> t \<longrightarrow> fst (threads s ! t') = Idle"
      using all_idle [OF assms(1) acquires(2)] by simp
    then show ?thesis unfolding eq
      using t acquires tot upd by (intro exclusive_intro) (simp_all add: busy_def)
  next
    case (computes a as)
    have b: "busy (threads s ! t)" using computes by (simp add: busy_def)
    then have "locked s" using assms(1) t unfolding exclusive_def by (metis nth_mem)
    moreover have "\<forall>t' < length (threads s). t' \<noteq> t \<longrightarrow> fst (threads s ! t') = Idle"
      using others_idle [OF assms(1) t b] by simp
    ultimately show ?thesis unfolding eq
      using t computes tot upd by (intro exclusive_intro) (simp_all add: busy_def)
  next
    case (stores x a as)
    have b: "busy (threads s ! t)" using stores by (simp add: busy_def)
    then have l: "locked s" using assms(1) t unfolding exclusive_def by (metis nth_mem)
    have x: "x = m_value (target s) + a" using ok_t stores by simp
    have "\<forall>t' < length (threads s). t' \<noteq> t \<longrightarrow> fst (threads s ! t') = Idle"
      using others_idle [OF assms(1) t b] by simp
    then show ?thesis unfolding eq
      using t stores tot upd l x by (intro exclusive_intro) (simp_all add: busy_def)
  next
    case (releases a as)
    have b: "busy (threads s ! t)" using releases by (simp add: busy_def)
    have "\<forall>t' < length (threads s). t' \<noteq> t \<longrightarrow> fst (threads s ! t') = Idle"
      using others_idle [OF assms(1) t b] by simp
    then show ?thesis unfolding eq
      using t releases tot upd by (intro exclusive_intro) (simp_all add: busy_def)
  qed
qed

lemma sched_exclusive:
  "exclusive s goal \<Longrightarrow> sched ts s = Some s' \<Longrightarrow> exclusive s' goal"
proof (induction ts arbitrary: s)
  case Nil
  then show ?case by simp
next
  case (Cons t ts)
  from Cons.prems(2) obtain s1 where f: "fire t s = Some s1" and r: "sched ts s1 = Some s'"
    by (auto split: option.splits)
  from Cons.IH [OF fire_exclusive [OF Cons.prems(1) f] r] show ?case .
qed

lemma finished_value:
  assumes "exclusive s goal" "finished s"
  shows "m_value (target s) = goal"
proof -
  have "\<forall>th \<in> set (threads s). remaining th = 0"
    using assms(2) by (auto simp: finished_def)
  then have "sum_list (map remaining (threads s)) = 0"
    by (rule sum_list_zero)
  then show ?thesis using assms(1) by (simp add: exclusive_def)
qed

lemma no_deadlock:
  assumes "exclusive s goal" "\<not> finished s"
  shows "\<exists>t. fire t s \<noteq> None"
proof (cases "locked s")
  case True
  then obtain t where t: "t < length (threads s)" "busy (threads s ! t)"
    using assms(1) by (auto simp: exclusive_def in_set_conv_nth)
  obtain p as where th: "threads s ! t = (p, as)" by (cases "threads s ! t")
  have "thread_ok (target s) (p, as)" using assms(1) t(1) th unfolding exclusive_def by (metis nth_mem)
  then obtain a as' where as: "as = a # as'" using t(2) th by (cases p; cases as) (simp_all add: busy_def)
  have "thread_step (p, as) (target s) (locked s) \<noteq> None"
    using t(2) th as by (cases p) (simp_all add: busy_def)
  then have "fire t s \<noteq> None" using t(1) th by (auto simp: fire_def split: option.splits)
  then show ?thesis ..
next
  case False
  from assms(2) obtain th where "th \<in> set (threads s)" "th \<noteq> (Idle, [])"
    unfolding finished_def by blast
  then obtain t where t: "t < length (threads s)" "threads s ! t \<noteq> (Idle, [])"
    unfolding in_set_conv_nth by blast
  have "fst (threads s ! t) = Idle" using all_idle [OF assms(1) False t(1)] .
  then obtain a as where "threads s ! t = (Idle, a # as)"
    using t(2) by (cases "threads s ! t"; cases "snd (threads s ! t)") auto
  then have "fire t s \<noteq> None" using t(1) False by (simp add: fire_def)
  then show ?thesis ..
qed


lemma sum_list_map_update_nat:
  fixes f :: "'a \<Rightarrow> nat"
  shows "t < length xs \<Longrightarrow> sum_list (map f (xs[t := y])) + f (xs ! t) = sum_list (map f xs) + f y"
proof (induction xs arbitrary: t)
  case Nil
  then show ?case by simp
next
  case (Cons x xs)
  then show ?case by (cases t) simp_all
qed

lemma fire_work:
  assumes "fire t s = Some s'"
  shows "Suc (sum_list (map work (threads s'))) = sum_list (map work (threads s))"
proof -
  from assms obtain th self lock where t: "t < length (threads s)"
    and st: "thread_step (threads s ! t) (target s) (locked s) = Some (th, self, lock)"
    and s': "threads s' = (threads s)[t := th]"
    by (rule fire_Some)
  have "Suc (work th) = work (threads s ! t)"
    using thread_step_Some [OF st] by auto
  then show ?thesis
    using sum_list_map_update_nat [OF t, of work th] s' by simp
qed

lemma sched_work:
  "sched ts s = Some s' \<Longrightarrow> length ts + sum_list (map work (threads s')) = sum_list (map work (threads s))"
proof (induction ts arbitrary: s)
  case Nil
  then show ?case by simp
next
  case (Cons t ts)
  from Cons.prems obtain s1 where f: "fire t s = Some s1" and r: "sched ts s1 = Some s'"
    by (auto split: option.splits)
  from Cons.IH [OF r] fire_work [OF f] show ?case by simp
qed

lemma work_spawn: "sum_list (map work (threads (spawn programs))) = 4 * length (concat programs)"
  by (induction programs) (simp_all add: spawn_def)

text \<open>
  Claim C3. After \<open>inc(a1)\<close>, ..., \<open>inc(an)\<close> on a new \<open>MutexValue\<close>, whose value is 0.0,
  \<open>get()\<close> returns \<open>a1 + ... + an\<close> (floats as reals; the amounts may be negative). When
  the calls are made by threads, whatever the schedule of their steps: the calls take
  four steps each, so no schedule is longer than four times their number and the
  threads have finished exactly when it is that long; until then some thread can take
  a step; and once they have finished \<open>get()\<close> returns the sum of all the amounts.
\<close>

theorem locked_incs_sum:
  "m_get (fold m_inc as (MutexValue_init :: 'e MutexValue)) = sum_list as \<and>
   (\<forall>s. sched ts (spawn programs :: 'e shared) = Some s \<longrightarrow>
      length ts \<le> 4 * length (concat programs) \<and>
      (finished s \<longleftrightarrow> length ts = 4 * length (concat programs)) \<and>
      (finished s \<longrightarrow> m_get (target s) = sum_list (concat programs)) \<and>
      (\<not> finished s \<longrightarrow> (\<exists>t. fire t s \<noteq> None)))"
proof -
  have seq: "m_get (fold m_inc as (MutexValue_init :: 'e MutexValue)) = sum_list as"
    by (simp add: m_get_def fold_m_inc MutexValue_init_def)
  have par: "\<forall>s. sched ts (spawn programs :: 'e shared) = Some s \<longrightarrow>
      length ts \<le> 4 * length (concat programs) \<and>
      (finished s \<longleftrightarrow> length ts = 4 * length (concat programs)) \<and>
      (finished s \<longrightarrow> m_get (target s) = sum_list (concat programs)) \<and>
      (\<not> finished s \<longrightarrow> (\<exists>t. fire t s \<noteq> None))"
  proof (intro allI impI)
    fix s :: "'e shared"
    assume r: "sched ts (spawn programs) = Some s"
    have e: "exclusive s (sum_list (concat programs))"
      using exclusive_spawn r by (rule sched_exclusive)
    have w: "length ts + sum_list (map work (threads s)) = 4 * length (concat programs)"
      using sched_work [OF r] by (simp add: work_spawn)
    have fin: "finished s \<longleftrightarrow> sum_list (map work (threads s)) = 0"
    proof
      assume "finished s"
      then have "\<forall>th \<in> set (threads s). work th = 0" by (auto simp: finished_def)
      then show "sum_list (map work (threads s)) = 0" by simp
    next
      assume "sum_list (map work (threads s)) = 0"
      then have z: "\<forall>th \<in> set (threads s). work th = 0" by simp
      show "finished s" unfolding finished_def
      proof
        fix th assume "th \<in> set (threads s)"
        then have "work th = 0" using z by simp
        then show "th = (Idle, [])" by (cases th; cases "fst th") auto
      qed
    qed
    show "length ts \<le> 4 * length (concat programs) \<and>
      (finished s \<longleftrightarrow> length ts = 4 * length (concat programs)) \<and>
      (finished s \<longrightarrow> m_get (target s) = sum_list (concat programs)) \<and>
      (\<not> finished s \<longrightarrow> (\<exists>t. fire t s \<noteq> None))"
    proof (intro conjI)
      show "length ts \<le> 4 * length (concat programs)" using w by linarith
      show "finished s \<longleftrightarrow> length ts = 4 * length (concat programs)"
        unfolding fin using w by linarith
      show "finished s \<longrightarrow> m_get (target s) = sum_list (concat programs)"
        using finished_value [OF e] by (simp add: m_get_def)
      show "\<not> finished s \<longrightarrow> (\<exists>t. fire t s \<noteq> None)"
        using no_deadlock [OF e] by blast
    qed
  qed
  show ?thesis using seq par by blast
qed

theorem locked_incs_sum_witness:
  "m_get (fold m_inc [1, -2, 3] (MutexValue_init :: unit MutexValue)) = 2 \<and>
   sched [1, 1, 1, 1, 0, 0, 0, 0, 0, 0, 0, 0] (spawn [[1, -2], [3]] :: unit shared) =
     Some \<lparr>target = \<lparr>m_value = 2, m_exemplar = None\<rparr>, locked = False,
           threads = [(Idle, []), (Idle, [])]\<rparr> \<and>
   sched [0, 0, 0, 0, 1, 1, 1, 1, 0, 0, 0, 0] (spawn [[1, -2], [3]] :: unit shared) =
     Some \<lparr>target = \<lparr>m_value = 2, m_exemplar = None\<rparr>, locked = False,
           threads = [(Idle, []), (Idle, [])]\<rparr> \<and>
   sched [0, 1] (spawn [[1, -2], [3]] :: unit shared) = None \<and>
   finished \<lparr>target = \<lparr>m_value = 2, m_exemplar = None :: unit option\<rparr>, locked = False,
           threads = [(Idle, []), (Idle, [])]\<rparr>"
proof -
  let ?f = "\<lparr>target = \<lparr>m_value = 2, m_exemplar = None :: unit option\<rparr>, locked = False,
           threads = [(Idle, []), (Idle, [])]\<rparr>"
  have a: "sched [1, 1, 1, 1, 0, 0, 0, 0, 0, 0, 0, 0] (spawn [[1, -2], [3]] :: unit shared) = Some ?f"
    by (simp add: spawn_def fire_def MutexValue_init_def)
  have b: "sched [0, 0, 0, 0, 1, 1, 1, 1, 0, 0, 0, 0] (spawn [[1, -2], [3]] :: unit shared) = Some ?f"
    by (simp add: spawn_def fire_def MutexValue_init_def)
  have c: "sched [0, 1] (spawn [[1, -2], [3]] :: unit shared) = None"
    by (simp add: spawn_def fire_def MutexValue_init_def)
  have f: "finished ?f" by (simp add: finished_def)
  from locked_incs_sum [of "[1, -2, 3]" "[1, 1, 1, 1, 0, 0, 0, 0, 0, 0, 0, 0]" "[[1, -2], [3]]", where ?'e = unit]
  have "m_get (fold m_inc [1, -2, 3] (MutexValue_init :: unit MutexValue)) = 2"
    and "m_get (target ?f) = sum_list (concat [[1, -2], [3]])"
    using a f by auto
  then show ?thesis using a b c f by simp
qed

end
